theory Spec2Isabelle
  imports Main
begin

unbundle bit_operations_syntax

section \<open>Candidate sets (internal/moves.go)\<close>

text \<open>
  \<^verbatim>\<open>type Moves int\<close>: a candidate set is a Go \<^verbatim>\<open>int\<close> used as a bit field, bit
  \<open>v - 1\<close> standing for the digit \<open>v\<close>. The only shift is \<^verbatim>\<open>1 << (value - 1)\<close> behind the
  guard \<open>1 \<le> value \<le> 9\<close>, so no operation leaves the range of the machine integer and
  the bitwise operations on \<open>int\<close> (two's complement) are the ones of the source.
\<close>

type_synonym Moves = int

datatype error =
    RowOutOfBounds
  | ColOutOfBounds
  | ValueOutOfBounds
  | CellAlreadyContains
  | RowAlreadyContains
  | ColAlreadyContains
  | SquareAlreadyContains
  | NotAValidSpot
  | NoMovesLeft int int
  | CellValueOutOfRange
  | CellAlreadySet
  | NoSolutionFound
  | PanicValueOutOfRange int

definition empty_moves :: Moves where
  "empty_moves = 0"

definition full_moves :: Moves where
  "full_moves = 511"

text \<open>\<^verbatim>\<open>mask\<close> panics outside 1..9; the panic is the \<open>Inl\<close> branch.\<close>

definition mask_of :: "int \<Rightarrow> error + Moves" where
  "mask_of v = (if v < 1 \<or> v > 9 then Inl (PanicValueOutOfRange v)
                else Inr (push_bit (nat (v - 1)) 1))"

definition Moves_Contains :: "Moves \<Rightarrow> int \<Rightarrow> error + bool" where
  "Moves_Contains m v = (case mask_of v of Inl e \<Rightarrow> Inl e | Inr k \<Rightarrow> Inr (m AND k \<noteq> 0))"

text \<open>\<^verbatim>\<open>Add\<close> and \<^verbatim>\<open>Remove\<close> return the \<^verbatim>\<open>changed\<close> flag and the new set.\<close>

definition Moves_Add :: "Moves \<Rightarrow> int \<Rightarrow> error + (bool \<times> Moves)" where
  "Moves_Add m v =
     (case Moves_Contains m v of
        Inl e \<Rightarrow> Inl e
      | Inr True \<Rightarrow> Inr (False, m)
      | Inr False \<Rightarrow> (case mask_of v of Inl e \<Rightarrow> Inl e | Inr k \<Rightarrow> Inr (True, m OR k)))"

definition Moves_Remove :: "Moves \<Rightarrow> int \<Rightarrow> error + (bool \<times> Moves)" where
  "Moves_Remove m v =
     (case Moves_Contains m v of
        Inl e \<Rightarrow> Inl e
      | Inr False \<Rightarrow> Inr (False, m)
      | Inr True \<Rightarrow> (case mask_of v of Inl e \<Rightarrow> Inl e | Inr k \<Rightarrow> Inr (True, m AND NOT k)))"

text \<open>\<^verbatim>\<open>Slice\<close>: the loop \<^verbatim>\<open>for value := 1; value <= 9; value++\<close> over the list of its values.\<close>

fun Slice_loop :: "Moves \<Rightarrow> int list \<Rightarrow> error + int list" where
  "Slice_loop m [] = Inr []"
| "Slice_loop m (v # vs) =
     (case Moves_Contains m v of
        Inl e \<Rightarrow> Inl e
      | Inr b \<Rightarrow> (case Slice_loop m vs of
                    Inl e \<Rightarrow> Inl e
                  | Inr r \<Rightarrow> Inr (if b then v # r else r)))"

definition Moves_Slice :: "Moves \<Rightarrow> error + int list" where
  "Moves_Slice m = Slice_loop m [1..9]"

section \<open>Cells (internal/cell.go)\<close>

text \<open>
  \<^verbatim>\<open>Cell\<close> has the fields row, col, value and moves. NewSudoku writes row and col once,
  as the indices of the cell in the board, and no function assigns them again; a
  \<^verbatim>\<open>*Cell\<close> always points into a board. A cell reference is therefore modelled by the
  coordinates of the cell it points to, \<^verbatim>\<open>cell.row\<close> and \<^verbatim>\<open>cell.col\<close> are its two
  components, and the record keeps the two fields that change.
\<close>

record Cell =
  val :: int
  moves :: Moves

type_synonym CellRef = "int \<times> int"

text \<open>\<^verbatim>\<open>Set\<close> returns its error and the cell as it is afterwards.\<close>

definition Cell_Set :: "Cell \<Rightarrow> int \<Rightarrow> error option \<times> Cell" where
  "Cell_Set c v =
     (if v < 1 \<or> v > 9 then (Some CellValueOutOfRange, c)
      else if val c \<noteq> 0 then (Some CellAlreadySet, c)
      else (None, c\<lparr>val := v, moves := empty_moves\<rparr>))"

definition Cell_CanPlay :: "Cell \<Rightarrow> int \<Rightarrow> error + bool" where
  "Cell_CanPlay c v = Moves_Contains (moves c) v"

definition Cell_EliminateMove :: "Cell \<Rightarrow> int \<Rightarrow> error + (bool \<times> Cell)" where
  "Cell_EliminateMove c v =
     (if v < 1 \<or> v > 9 then Inl (PanicValueOutOfRange v)
      else (case Moves_Remove (moves c) v of
              Inl e \<Rightarrow> Inl e
            | Inr (changed, m) \<Rightarrow> Inr (changed, c\<lparr>moves := m\<rparr>)))"

definition Cell_Moves :: "Cell \<Rightarrow> error + int list" where
  "Cell_Moves c = Moves_Slice (moves c)"

section \<open>The board (internal/sudoku.go)\<close>

text \<open>
  \<^verbatim>\<open>[9]T\<close> is a value of exactly nine slots. Every index expression of the source
  lies in 0..8 (PlayMove checks its arguments first, every other index is a loop
  counter or a coordinate of a cell reference), so the bounds check of the Go runtime
  never fires; \<open>at\<close> and \<open>upd\<close> take the last slot for any other index.
\<close>

datatype 'a arr9 = Arr9 'a 'a 'a 'a 'a 'a 'a 'a 'a

fun at :: "'a arr9 \<Rightarrow> int \<Rightarrow> 'a" where
  "at (Arr9 a0 a1 a2 a3 a4 a5 a6 a7 a8) i =
     (if i = 0 then a0 else if i = 1 then a1 else if i = 2 then a2
      else if i = 3 then a3 else if i = 4 then a4 else if i = 5 then a5
      else if i = 6 then a6 else if i = 7 then a7 else a8)"

fun upd :: "'a arr9 \<Rightarrow> int \<Rightarrow> 'a \<Rightarrow> 'a arr9" where
  "upd (Arr9 a0 a1 a2 a3 a4 a5 a6 a7 a8) i x =
     (if i = 0 then Arr9 x a1 a2 a3 a4 a5 a6 a7 a8
      else if i = 1 then Arr9 a0 x a2 a3 a4 a5 a6 a7 a8
      else if i = 2 then Arr9 a0 a1 x a3 a4 a5 a6 a7 a8
      else if i = 3 then Arr9 a0 a1 a2 x a4 a5 a6 a7 a8
      else if i = 4 then Arr9 a0 a1 a2 a3 x a5 a6 a7 a8
      else if i = 5 then Arr9 a0 a1 a2 a3 a4 x a6 a7 a8
      else if i = 6 then Arr9 a0 a1 a2 a3 a4 a5 x a7 a8
      else if i = 7 then Arr9 a0 a1 a2 a3 a4 a5 a6 x a8
      else Arr9 a0 a1 a2 a3 a4 a5 a6 a7 x)"

fun elems :: "'a arr9 \<Rightarrow> 'a list" where
  "elems (Arr9 a0 a1 a2 a3 a4 a5 a6 a7 a8) = [a0, a1, a2, a3, a4, a5, a6, a7, a8]"

definition fill9 :: "'a \<Rightarrow> 'a arr9" where
  "fill9 x = Arr9 x x x x x x x x x"

text \<open>\<^verbatim>\<open>type Sudoku struct { board [9][9]Cell }\<close>: the struct is its one field.\<close>

type_synonym Sudoku = "Cell arr9 arr9"

definition cell :: "Sudoku \<Rightarrow> CellRef \<Rightarrow> Cell" where
  "cell s p = at (at s (fst p)) (snd p)"

definition put_cell :: "Sudoku \<Rightarrow> CellRef \<Rightarrow> Cell \<Rightarrow> Sudoku" where
  "put_cell s p c = upd s (fst p) (upd (at s (fst p)) (snd p) c)"

definition Range :: "int \<Rightarrow> int \<Rightarrow> int \<Rightarrow> int \<Rightarrow> CellRef list" where
  "Range top_row left_col bottom_row right_col =
     concat (map (\<lambda>row. map (\<lambda>col. (row, col)) [left_col..right_col]) [top_row..bottom_row])"

definition Cells :: "CellRef list" where
  "Cells = Range 0 0 8 8"

definition Row :: "int \<Rightarrow> CellRef list" where
  "Row row = Range row 0 row 8"

definition Col :: "int \<Rightarrow> CellRef list" where
  "Col col = Range 0 col 8 col"

definition Square :: "int \<Rightarrow> int \<Rightarrow> CellRef list" where
  "Square row col = Range (row * 3) (col * 3) (row * 3 + 2) (col * 3 + 2)"

definition Rows :: "CellRef list list" where
  "Rows = map Row [0..8]"

definition Cols :: "CellRef list list" where
  "Cols = map Col [0..8]"

definition Squares :: "CellRef list list" where
  "Squares = concat (map (\<lambda>row. map (\<lambda>col. Square row col) [0..2]) [0..2])"

definition Groups :: "CellRef list list" where
  "Groups = (Rows @ Cols) @ Squares"

text \<open>\<^verbatim>\<open>Clone\<close> copies the array, which holds the cells themselves.\<close>

definition Clone :: "Sudoku \<Rightarrow> Sudoku" where
  "Clone s = s"

subsection \<open>Operations on lists of cell references\<close>

fun Cells_FindMove :: "Sudoku \<Rightarrow> CellRef list \<Rightarrow> int \<Rightarrow> error + CellRef list" where
  "Cells_FindMove s [] v = Inr []"
| "Cells_FindMove s (p # ps) v =
     (case Cell_CanPlay (cell s p) v of
        Inl e \<Rightarrow> Inl e
      | Inr b \<Rightarrow> (case Cells_FindMove s ps v of
                    Inl e \<Rightarrow> Inl e
                  | Inr r \<Rightarrow> Inr (if b then p # r else r)))"

definition Cells_UnsetOnly :: "Sudoku \<Rightarrow> CellRef list \<Rightarrow> CellRef list" where
  "Cells_UnsetOnly s c = filter (\<lambda>p. val (cell s p) = 0) c"

definition Cells_Excluding :: "CellRef list \<Rightarrow> CellRef list \<Rightarrow> CellRef list" where
  "Cells_Excluding c other =
     filter (\<lambda>candidate. \<not> list_ex (\<lambda>other. fst candidate = fst other \<and> snd candidate = snd other) other) c"

fun Cells_PowerSet :: "CellRef list \<Rightarrow> CellRef list list" where
  "Cells_PowerSet [] = [[]]"
| "Cells_PowerSet (head # c) =
     (let subsets = Cells_PowerSet c in subsets @ map (\<lambda>tail. head # tail) subsets)"

definition Cells_RemainingMoves :: "Sudoku \<Rightarrow> CellRef list \<Rightarrow> Moves" where
  "Cells_RemainingMoves s c = foldl (\<lambda>m p. m OR moves (cell s p)) empty_moves c"

text \<open>
  \<^verbatim>\<open>Cells.EliminateMove\<close> writes through the references: it returns the number of
  cells changed and the board as it is afterwards, also when a cell panics.
\<close>

fun EliminateMove_loop :: "CellRef list \<Rightarrow> int \<Rightarrow> nat \<Rightarrow> Sudoku \<Rightarrow> (error + nat) \<times> Sudoku" where
  "EliminateMove_loop [] v changes s = (Inr changes, s)"
| "EliminateMove_loop (p # ps) v changes s =
     (case Cell_EliminateMove (cell s p) v of
        Inl e \<Rightarrow> (Inl e, s)
      | Inr (changed, c) \<Rightarrow>
          EliminateMove_loop ps v (if changed then changes + 1 else changes) (put_cell s p c))"

definition Cells_EliminateMove :: "Sudoku \<Rightarrow> CellRef list \<Rightarrow> int \<Rightarrow> (error + nat) \<times> Sudoku" where
  "Cells_EliminateMove s c v = EliminateMove_loop c v 0 s"

definition Cells_UniqueRows :: "CellRef list \<Rightarrow> int list" where
  "Cells_UniqueRows c = filter (\<lambda>row. list_ex (\<lambda>p. fst p = row) c) [0..8]"

definition Cells_UniqueCols :: "CellRef list \<Rightarrow> int list" where
  "Cells_UniqueCols c = filter (\<lambda>col. list_ex (\<lambda>p. snd p = col) c) [0..8]"

text \<open>The values are coordinates, so \<^verbatim>\<open>value / 3\<close> divides a non-negative number.\<close>

definition uniqueSquares :: "int list \<Rightarrow> int list" where
  "uniqueSquares values = filter (\<lambda>square. list_ex (\<lambda>v. v div 3 = square) values) [0..2]"

subsection \<open>PlayMove\<close>

text \<open>
  The closing scan of PlayMove, \<^verbatim>\<open>for row := 0; row < 9; row++ { for col := 0; col < 9;
  col++ {...} }\<close>, over the coordinates in that order.
\<close>

fun scan_no_moves :: "Sudoku \<Rightarrow> CellRef list \<Rightarrow> error option" where
  "scan_no_moves s [] = None"
| "scan_no_moves s (p # ps) =
     (if val (cell s p) = 0 \<and> moves (cell s p) = empty_moves
      then Some (NoMovesLeft (fst p + 1) (snd p + 1))
      else scan_no_moves s ps)"

text \<open>
  PlayMove returns its error and the board as the caller finds it afterwards. The
  results of the three \<^verbatim>\<open>EliminateMove\<close> calls are dropped, as in the source.
\<close>

definition PlayMove :: "int \<Rightarrow> int \<Rightarrow> int \<Rightarrow> Sudoku \<Rightarrow> error option \<times> Sudoku" where
  "PlayMove row col v s =
     (if row < 0 \<or> row \<ge> 9 then (Some RowOutOfBounds, s)
      else if col < 0 \<or> col \<ge> 9 then (Some ColOutOfBounds, s)
      else if v < 1 \<or> v > 9 then (Some ValueOutOfBounds, s)
      else if val (cell s (row, col)) \<noteq> 0 then (Some CellAlreadyContains, s)
      else case Moves_Contains (Cells_RemainingMoves s (Row row)) v of
        Inl e \<Rightarrow> (Some e, s)
      | Inr False \<Rightarrow> (Some RowAlreadyContains, s)
      | Inr True \<Rightarrow>
      (case Moves_Contains (Cells_RemainingMoves s (Col col)) v of
        Inl e \<Rightarrow> (Some e, s)
      | Inr False \<Rightarrow> (Some ColAlreadyContains, s)
      | Inr True \<Rightarrow>
      (case Moves_Contains (Cells_RemainingMoves s (Square (row div 3) (col div 3))) v of
        Inl e \<Rightarrow> (Some e, s)
      | Inr False \<Rightarrow> (Some SquareAlreadyContains, s)
      | Inr True \<Rightarrow>
      (case Cell_CanPlay (cell s (row, col)) v of
        Inl e \<Rightarrow> (Some e, s)
      | Inr False \<Rightarrow> (Some NotAValidSpot, s)
      | Inr True \<Rightarrow>
      (case Cell_Set (cell s (row, col)) v of
        (Some err, c) \<Rightarrow> (Some err, put_cell s (row, col) c)
      | (None, c) \<Rightarrow>
      (case Cells_EliminateMove (put_cell s (row, col) c) (Row row) v of
        (Inl e, s1) \<Rightarrow> (Some e, s1)
      | (Inr _, s1) \<Rightarrow>
      (case Cells_EliminateMove s1 (Col col) v of
        (Inl e, s2) \<Rightarrow> (Some e, s2)
      | (Inr _, s2) \<Rightarrow>
      (case Cells_EliminateMove s2 (Square (row div 3) (col div 3)) v of
        (Inl e, s3) \<Rightarrow> (Some e, s3)
      | (Inr _, s3) \<Rightarrow> (scan_no_moves s3 (Range 0 0 8 8), s3)))))))))"

subsection \<open>NewSudoku\<close>

definition new_board :: Sudoku where
  "new_board = fill9 (fill9 \<lparr>val = 0, moves = full_moves\<rparr>)"

fun NewSudoku_loop :: "int arr9 arr9 \<Rightarrow> CellRef list \<Rightarrow> Sudoku \<Rightarrow> error option \<times> Sudoku" where
  "NewSudoku_loop board [] s = (None, s)"
| "NewSudoku_loop board (p # ps) s =
     (let v = at (at board (fst p)) (snd p) in
      if v \<noteq> 0 then
        (case PlayMove (fst p) (snd p) v s of
           (Some err, s') \<Rightarrow> (Some err, s')
         | (None, s') \<Rightarrow> NewSudoku_loop board ps s')
      else NewSudoku_loop board ps s)"

definition NewSudoku :: "int arr9 arr9 \<Rightarrow> error option \<times> Sudoku" where
  "NewSudoku board = NewSudoku_loop board (Range 0 0 8 8) new_board"

section \<open>Solve\<close>

text \<open>
  The loops of Solve share two pieces of state, the board and the counter
  \<^verbatim>\<open>moves\<close>; a loop body takes and returns both. \<open>for_each\<close> is
  \<^verbatim>\<open>for _, x := range xs { body }\<close> where the body may \<^verbatim>\<open>return err\<close>: the slice
  is evaluated once, the first error ends the loop, and the state reached so far stays.
  The counter only counts up from zero and stays far below the range of \<^verbatim>\<open>int\<close>.
\<close>

type_synonym progress = "nat \<times> Sudoku"

fun for_each :: "'a list \<Rightarrow> ('a \<Rightarrow> 'st \<Rightarrow> error option \<times> 'st) \<Rightarrow> 'st \<Rightarrow> error option \<times> 'st" where
  "for_each [] body st = (None, st)"
| "for_each (x # xs) body st =
     (case body x st of
        (Some err, st') \<Rightarrow> (Some err, st')
      | (None, st') \<Rightarrow> for_each xs body st')"

text \<open>\<^verbatim>\<open>if err := s.PlayMove(...); err != nil { return err }; moves++\<close>\<close>

definition play_counted :: "CellRef \<Rightarrow> int \<Rightarrow> progress \<Rightarrow> error option \<times> progress" where
  "play_counted p v st =
     (case PlayMove (fst p) (snd p) v (snd st) of
        (Some err, s') \<Rightarrow> (Some err, (fst st, s'))
      | (None, s') \<Rightarrow> (None, (fst st + 1, s')))"

text \<open>\<^verbatim>\<open>if cells.EliminateMove(value) > 0 { moves++ }\<close>\<close>

definition eliminate_counted :: "CellRef list \<Rightarrow> int \<Rightarrow> progress \<Rightarrow> error option \<times> progress" where
  "eliminate_counted c v st =
     (case Cells_EliminateMove (snd st) c v of
        (Inl e, s') \<Rightarrow> (Some e, (fst st, s'))
      | (Inr changes, s') \<Rightarrow> (None, (if changes > 0 then fst st + 1 else fst st, s')))"

text \<open>\<^verbatim>\<open>for _, value := range group.RemainingMoves().Slice() { body }\<close>\<close>

definition each_remaining_move ::
  "(CellRef list \<Rightarrow> int \<Rightarrow> progress \<Rightarrow> error option \<times> progress) \<Rightarrow> CellRef list \<Rightarrow> progress
    \<Rightarrow> error option \<times> progress" where
  "each_remaining_move body grp st =
     (case Moves_Slice (Cells_RemainingMoves (snd st) grp) of
        Inl e \<Rightarrow> (Some e, st)
      | Inr vs \<Rightarrow> for_each vs (body grp) st)"

text \<open>Lines 273-283: cells where only a single move is possible.\<close>

definition naked_single :: "CellRef \<Rightarrow> progress \<Rightarrow> error option \<times> progress" where
  "naked_single p st =
     (case Cell_Moves (cell (snd st) p) of
        Inl e \<Rightarrow> (Some e, st)
      | Inr possibleMoves \<Rightarrow>
          if length possibleMoves = 1 then play_counted p (hd possibleMoves) st
          else (None, st))"

text \<open>Lines 286-328: squares, rows and columns where a number only fits in one cell.\<close>

definition hidden_single :: "CellRef list \<Rightarrow> int \<Rightarrow> progress \<Rightarrow> error option \<times> progress" where
  "hidden_single grp v st =
     (case Cells_FindMove (snd st) grp v of
        Inl e \<Rightarrow> (Some e, st)
      | Inr cells \<Rightarrow>
          if length cells = 1 then play_counted (hd cells) v st
          else (None, st))"

text \<open>Lines 331-356: a number confined to one row or column of a square.\<close>

definition square_line :: "CellRef list \<Rightarrow> int \<Rightarrow> progress \<Rightarrow> error option \<times> progress" where
  "square_line square v st =
     (case Cells_FindMove (snd st) square v of
        Inl e \<Rightarrow> (Some e, st)
      | Inr cells \<Rightarrow>
          (let rows = Cells_UniqueRows cells in
           case (if length rows = 1
                 then eliminate_counted (Cells_Excluding (Row (hd rows)) square) v st
                 else (None, st)) of
             (Some err, st1) \<Rightarrow> (Some err, st1)
           | (None, st1) \<Rightarrow>
               (let cols = Cells_UniqueCols cells in
                if length cols = 1
                then eliminate_counted (Cells_Excluding (Col (hd cols)) square) v st1
                else (None, st1))))"

text \<open>Lines 359-374: a number confined to one square of a row.\<close>

definition row_square :: "CellRef list \<Rightarrow> int \<Rightarrow> progress \<Rightarrow> error option \<times> progress" where
  "row_square row v st =
     (case Cells_FindMove (snd st) row v of
        Inl e \<Rightarrow> (Some e, st)
      | Inr cells \<Rightarrow>
          (let cols = Cells_UniqueCols cells; squareCols = uniqueSquares cols in
           if length squareCols = 1
           then (let squareRow = fst (hd row) div 3; squareCol = hd squareCols in
                 eliminate_counted (Cells_Excluding (Square squareRow squareCol) row) v st)
           else (None, st)))"

text \<open>Lines 377-392: a number confined to one square of a column.\<close>

definition col_square :: "CellRef list \<Rightarrow> int \<Rightarrow> progress \<Rightarrow> error option \<times> progress" where
  "col_square col v st =
     (case Cells_FindMove (snd st) col v of
        Inl e \<Rightarrow> (Some e, st)
      | Inr cells \<Rightarrow>
          (let rows = Cells_UniqueRows cells; squareRows = uniqueSquares rows in
           if length squareRows = 1
           then (let squareRow = hd squareRows; squareCol = snd (hd col) div 3 in
                 eliminate_counted (Cells_Excluding (Square squareRow squareCol) col) v st)
           else (None, st)))"

text \<open>Lines 424-444: subsets of the unset cells of a group.\<close>

definition subset_value :: "CellRef list \<Rightarrow> int \<Rightarrow> progress \<Rightarrow> error option \<times> progress" where
  "subset_value otherCells v st =
     (case Cells_FindMove (snd st) otherCells v of
        Inl e \<Rightarrow> (Some e, st)
      | Inr excludable \<Rightarrow>
          if length excludable > 0
          then (case Cells_EliminateMove (snd st) excludable v of
                  (Inl e, s') \<Rightarrow> (Some e, (fst st, s'))
                | (Inr _, s') \<Rightarrow> (None, (fst st + 1, s')))
          else (None, st))"

definition subset_step :: "CellRef list \<Rightarrow> CellRef list \<Rightarrow> progress \<Rightarrow> error option \<times> progress" where
  "subset_step grp sub st =
     (if length sub < 2 \<or> length sub = length grp then (None, st)
      else case Moves_Slice (Cells_RemainingMoves (snd st) sub) of
        Inl e \<Rightarrow> (Some e, st)
      | Inr remainingMoves \<Rightarrow>
          if length sub = length remainingMoves
          then (let otherCells = Cells_Excluding grp sub in
                for_each remainingMoves (subset_value otherCells) st)
          else (None, st))"

definition subset_group :: "CellRef list \<Rightarrow> progress \<Rightarrow> error option \<times> progress" where
  "subset_group g st =
     (let grp = Cells_UnsetOnly (snd st) g in
      for_each (Cells_PowerSet grp) (subset_step grp) st)"

definition subset_pass :: "progress \<Rightarrow> error option \<times> progress" where
  "subset_pass st = for_each Groups subset_group st"

text \<open>Lines 270-392: the loops that run before the first test of \<^verbatim>\<open>moves\<close>, in order.\<close>

definition deduction_loops :: "(progress \<Rightarrow> error option \<times> progress) list" where
  "deduction_loops =
     [for_each Cells naked_single,
      for_each Squares (each_remaining_move hidden_single),
      for_each Rows (each_remaining_move hidden_single),
      for_each Cols (each_remaining_move hidden_single),
      for_each Squares (each_remaining_move square_line),
      for_each Rows (each_remaining_move row_square),
      for_each Cols (each_remaining_move col_square)]"

definition deduce :: "progress \<Rightarrow> error option \<times> progress" where
  "deduce st = for_each deduction_loops (\<lambda>loop. loop) st"

text \<open>
  One call of Solve, from \<^verbatim>\<open>moves := 0\<close> to the statement that ends it: either a
  \<^verbatim>\<open>return\<close> of an error value, with the board as it is then, or one of the two tail
  calls \<^verbatim>\<open>return s.Solve()\<close> (lines 402 and 448), on the board as it is then.
\<close>

datatype outcome = Return "error option \<times> Sudoku" | Again Sudoku

definition Solve_call :: "Sudoku \<Rightarrow> outcome" where
  "Solve_call s =
     (case deduce (0, s) of
        (Some err, (n, s1)) \<Rightarrow> Return (Some err, s1)
      | (None, (n, s1)) \<Rightarrow>
          if length (Cells_UnsetOnly s1 Cells) = 0 then Return (None, s1)
          else if n > 0 then Again s1
          else (case subset_pass (n, s1) of
                  (Some err, (n2, s2)) \<Rightarrow> Return (Some err, s2)
                | (None, (n2, s2)) \<Rightarrow>
                    if n2 > 0 then Again s2 else Return (Some NoSolutionFound, s2)))"

section \<open>Auxiliary notions and basic facts\<close>

text \<open>
  \<open>has m v\<close> reads bit \<open>v - 1\<close> of a candidate set; for \<open>1 \<le> v \<le> 9\<close> it is what
  \<^verbatim>\<open>Contains\<close> returns.
\<close>

definition has :: "Moves \<Rightarrow> int \<Rightarrow> bool" where
  "has m v = bit m (nat (v - 1))"

definition digit_bit :: "int \<Rightarrow> Moves" where
  "digit_bit v = push_bit (nat (v - 1)) 1"

lemma mask_of_in: "1 \<le> v \<Longrightarrow> v \<le> 9 \<Longrightarrow> mask_of v = Inr (digit_bit v)"
  by (simp add: mask_of_def digit_bit_def)

lemma and_digit_bit: "m AND digit_bit v \<noteq> 0 \<longleftrightarrow> has m v"
  unfolding digit_bit_def has_def by (simp only: bit_iff_and_push_bit_not_eq_0)

lemma has_and_not_digit_bit:
  "1 \<le> v \<Longrightarrow> 1 \<le> w \<Longrightarrow> has (m AND NOT (digit_bit v)) w \<longleftrightarrow> has m w \<and> w \<noteq> v"
  unfolding digit_bit_def has_def by (auto simp add: bit_simps)

lemma and_not_digit_bit_id: "\<not> has m v \<Longrightarrow> m AND NOT (digit_bit v) = m"
  unfolding digit_bit_def has_def by (rule bit_eqI) (auto simp add: bit_simps)


lemma mask_of_out: "v < 1 \<or> v > 9 \<Longrightarrow> mask_of v = Inl (PanicValueOutOfRange v)"
  by (simp add: mask_of_def)

lemma Contains_in: "1 \<le> v \<Longrightarrow> v \<le> 9 \<Longrightarrow> Moves_Contains m v = Inr (has m v)"
  by (simp add: Moves_Contains_def mask_of_in and_digit_bit)

lemma Contains_out: "v < 1 \<or> v > 9 \<Longrightarrow> Moves_Contains m v = Inl (PanicValueOutOfRange v)"
  by (simp add: Moves_Contains_def mask_of_out)

lemma Remove_in:
  "1 \<le> v \<Longrightarrow> v \<le> 9 \<Longrightarrow>
   Moves_Remove m v = Inr (has m v, m AND NOT (digit_bit v))"
  by (cases "has m v") (simp_all add: Moves_Remove_def Contains_in mask_of_in and_not_digit_bit_id)

lemma Slice_loop_in:
  "\<forall>v \<in> set vs. 1 \<le> v \<and> v \<le> 9 \<Longrightarrow> Slice_loop m vs = Inr (filter (has m) vs)"
  by (induction vs) (simp_all add: Contains_in)

lemma Slice_eq: "Moves_Slice m = Inr (filter (has m) [1..9])"
  unfolding Moves_Slice_def by (rule Slice_loop_in) simp

definition slot :: "int \<Rightarrow> int" where
  "slot i = (if 0 \<le> i \<and> i \<le> 7 then i else 8)"

lemma slot_cases: "i = 0 \<or> i = 1 \<or> i = 2 \<or> i = 3 \<or> i = 4 \<or> i = 5 \<or> i = 6 \<or> i = 7 \<or> (i < 0 \<or> 7 < i)"
  for i :: int
  by arith

lemma at_nth: "at a i = elems a ! nat (slot i)"
  using slot_cases [of i] by (cases a) (elim disjE; simp add: slot_def)

lemma elems_upd: "elems (upd a i x) = (elems a)[nat (slot i) := x]"
  using slot_cases [of i] by (cases a) (elim disjE; simp add: slot_def)

lemma length_elems [simp]: "length (elems a) = 9"
  by (cases a) simp

lemma slot_range: "0 \<le> slot i \<and> slot i \<le> 8"
  by (simp add: slot_def)

lemma at_upd: "at (upd a i x) j = (if slot i = slot j then x else at a j)"
proof -
  have "nat (slot i) < 9" "nat (slot i) = nat (slot j) \<longleftrightarrow> slot i = slot j"
    using slot_range [of i] slot_range [of j] by auto
  then show ?thesis
    by (simp add: at_nth elems_upd nth_list_update)
qed

lemma at_slot_cong: "slot i = slot j \<Longrightarrow> at a i = at a j"
  by (simp add: at_nth)

definition norm :: "CellRef \<Rightarrow> CellRef" where
  "norm p = (slot (fst p), slot (snd p))"

lemma cell_norm_cong: "norm p = norm q \<Longrightarrow> cell s p = cell s q"
  unfolding norm_def cell_def
  by (metis Pair_inject at_slot_cong)

lemma cell_put_cell:
  "cell (put_cell s p c) q = (if norm p = norm q then c else cell s q)"
proof (cases "slot (fst p) = slot (fst q)")
  case True
  then have "at s (fst p) = at s (fst q)"
    by (rule at_slot_cong)
  with True show ?thesis
    by (simp add: cell_def put_cell_def at_upd norm_def)
next
  case False
  then show ?thesis
    by (simp add: cell_def put_cell_def at_upd norm_def)
qed

definition weight :: "Cell \<Rightarrow> nat" where
  "weight c = length (filter (has (moves c)) [1..9]) + (if val c = 0 then 1 else 0)"

definition row_weight :: "Cell arr9 \<Rightarrow> nat" where
  "row_weight r = sum_list (map weight (elems r))"

definition remaining :: "Sudoku \<Rightarrow> nat" where
  "remaining s = sum_list (map row_weight (elems s))"

lemma sum_list_upd:
  fixes f :: "'a \<Rightarrow> nat"
  shows "sum_list (map f (elems (upd a i x))) + f (at a i) = sum_list (map f (elems a)) + f x"
proof -
  let ?k = "nat (slot i)"
  have k: "?k < length (map f (elems a))"
    using slot_range [of i] by auto
  have "sum_list ((map f (elems a))[?k := f x]) = sum_list (map f (elems a)) + f x - map f (elems a) ! ?k"
    using k by (rule sum_list_update)
  moreover have "map f (elems a) ! ?k \<le> sum_list (map f (elems a))"
    using k by (simp add: member_le_sum_list)
  moreover have "map f (elems a) ! ?k = f (at a i)"
    using k by (simp add: at_nth)
  ultimately show ?thesis
    by (simp add: elems_upd map_update)
qed

lemma remaining_put_cell:
  "remaining (put_cell s p c) + weight (cell s p) = remaining s + weight c"
proof -
  let ?r = "at s (fst p)"
  let ?r' = "upd ?r (snd p) c"
  have "remaining (put_cell s p c) + row_weight ?r = remaining s + row_weight ?r'"
    unfolding remaining_def put_cell_def by (rule sum_list_upd)
  moreover have "row_weight ?r' + weight (cell s p) = row_weight ?r + weight c"
    unfolding row_weight_def cell_def by (rule sum_list_upd)
  ultimately show ?thesis
    by linarith
qed

definition clear :: "int \<Rightarrow> Cell \<Rightarrow> Cell" where
  "clear v c = c\<lparr>moves := moves c AND NOT (digit_bit v)\<rparr>"

lemma Cell_EliminateMove_in:
  "1 \<le> v \<Longrightarrow> v \<le> 9 \<Longrightarrow> Cell_EliminateMove c v = Inr (has (moves c) v, clear v c)"
  by (simp add: Cell_EliminateMove_def Remove_in clear_def)

lemma Cell_EliminateMove_out:
  "v < 1 \<or> v > 9 \<Longrightarrow> Cell_EliminateMove c v = Inl (PanicValueOutOfRange v)"
  by (auto simp add: Cell_EliminateMove_def)

lemma has_clear:
  "1 \<le> v \<Longrightarrow> v \<le> 9 \<Longrightarrow> 1 \<le> w \<Longrightarrow> has (moves (clear v c)) w \<longleftrightarrow> has (moves c) w \<and> w \<noteq> v"
  by (simp add: clear_def has_and_not_digit_bit)

lemma val_clear [simp]: "val (clear v c) = val c"
  by (simp add: clear_def)

lemma clear_idem [simp]: "clear v (clear v c) = clear v c"
  by (simp add: clear_def and.assoc)

lemma length_filter_except:
  assumes "distinct xs" "v \<in> set xs" "P v"
  shows "Suc (length (filter (\<lambda>w. P w \<and> w \<noteq> v) xs)) = length (filter P xs)"
  using assms
proof (induction xs)
  case Nil
  then show ?case by simp
next
  case (Cons x xs)
  show ?case
  proof (cases "x = v")
    case True
    with Cons.prems have "v \<notin> set xs" by simp
    then have "filter (\<lambda>w. P w \<and> w \<noteq> v) xs = filter P xs"
      by (intro filter_cong) auto
    with True Cons.prems show ?thesis by simp
  next
    case False
    with Cons show ?thesis by simp
  qed
qed

lemma weight_clear:
  assumes "1 \<le> v" "v \<le> 9"
  shows "weight (clear v c) + (if has (moves c) v then 1 else 0) = weight c"
proof -
  have eq: "filter (has (moves (clear v c))) [1..9] = filter (\<lambda>w. has (moves c) w \<and> w \<noteq> v) [1..9]"
    using assms by (intro filter_cong) (auto simp add: has_clear)
  show ?thesis
  proof (cases "has (moves c) v")
    case True
    have "Suc (length (filter (\<lambda>w. has (moves c) w \<and> w \<noteq> v) [1..9])) = length (filter (has (moves c)) [1..9])"
      using assms True by (intro length_filter_except) auto
    with True eq show ?thesis by (simp add: weight_def)
  next
    case False
    then have "filter (\<lambda>w. has (moves c) w \<and> w \<noteq> v) [1..9] = filter (has (moves c)) [1..9]"
      by (intro filter_cong) auto
    with False eq show ?thesis by (simp add: weight_def)
  qed
qed

lemma EliminateMove_loop_out:
  "v < 1 \<or> v > 9 \<Longrightarrow> snd (EliminateMove_loop ps v k s) = s"
  by (cases ps) (simp_all add: Cell_EliminateMove_out)

lemma EliminateMove_loop_in:
  "1 \<le> v \<Longrightarrow> v \<le> 9 \<Longrightarrow> \<exists>n. fst (EliminateMove_loop ps v k s) = Inr n"
  by (induction ps arbitrary: k s) (simp_all add: Cell_EliminateMove_in)

lemma EliminateMove_loop_remaining:
  "1 \<le> v \<Longrightarrow> v \<le> 9 \<Longrightarrow> EliminateMove_loop ps v k s = (Inr n, s') \<Longrightarrow>
   remaining s' + n = remaining s + k"
proof (induction ps arbitrary: k s)
  case Nil
  then show ?case by simp
next
  case (Cons p ps)
  let ?c = "clear v (cell s p)"
  let ?k = "if has (moves (cell s p)) v then k + 1 else k"
  from Cons.prems have "EliminateMove_loop ps v ?k (put_cell s p ?c) = (Inr n, s')"
    by (simp add: Cell_EliminateMove_in)
  with Cons have "remaining s' + n = remaining (put_cell s p ?c) + ?k"
    by blast
  moreover have "remaining (put_cell s p ?c) + weight (cell s p) = remaining s + weight ?c"
    by (rule remaining_put_cell)
  moreover have "weight ?c + (if has (moves (cell s p)) v then 1 else 0) = weight (cell s p)"
    using Cons.prems by (intro weight_clear)
  ultimately show ?case
    by (simp split: if_splits)
qed

lemma EliminateMove_loop_cell:
  "1 \<le> v \<Longrightarrow> v \<le> 9 \<Longrightarrow>
   cell (snd (EliminateMove_loop ps v k s)) q =
     (if norm q \<in> norm ` set ps then clear v (cell s q) else cell s q)"
proof (induction ps arbitrary: k s)
  case Nil
  then show ?case by simp
next
  case (Cons p ps)
  have "norm p = norm q \<Longrightarrow> cell s p = cell s q"
    by (rule cell_norm_cong)
  with Cons show ?case
    by (auto simp add: Cell_EliminateMove_in cell_put_cell)
qed

lemma Cells_EliminateMove_out:
  "v < 1 \<or> v > 9 \<Longrightarrow> snd (Cells_EliminateMove s c v) = s"
  by (simp add: Cells_EliminateMove_def EliminateMove_loop_out)

lemma Cells_EliminateMove_in:
  assumes "1 \<le> v" "v \<le> 9"
  obtains n s' where "Cells_EliminateMove s c v = (Inr n, s')"
  using EliminateMove_loop_in [OF assms, of c 0 s]
  by (metis Cells_EliminateMove_def prod.collapse)

lemma Cells_EliminateMove_remaining:
  assumes "Cells_EliminateMove s c v = (r, s')"
  shows "remaining s' \<le> remaining s" and "r = Inr n \<Longrightarrow> remaining s' + n \<le> remaining s"
proof -
  have "remaining s' \<le> remaining s \<and> (r = Inr n \<longrightarrow> remaining s' + n \<le> remaining s)"
  proof (cases "1 \<le> v \<and> v \<le> 9")
    case True
    then obtain k s'' where k: "Cells_EliminateMove s c v = (Inr k, s'')"
      using Cells_EliminateMove_in by blast
    with assms have "EliminateMove_loop c v 0 s = (Inr k, s')" "r = Inr k"
      by (simp_all add: Cells_EliminateMove_def)
    with True have "remaining s' + k = remaining s + 0"
      by (intro EliminateMove_loop_remaining) auto
    with \<open>r = Inr k\<close> show ?thesis by auto
  next
    case False
    then have out: "v < 1 \<or> v > 9" by auto
    then have "s' = s"
      using assms Cells_EliminateMove_out [OF out, of s c] by simp
    moreover have "r \<noteq> Inr n \<or> n = 0"
      using assms out by (cases c) (auto simp add: Cells_EliminateMove_def Cell_EliminateMove_out)
    ultimately show ?thesis by auto
  qed
  then show "remaining s' \<le> remaining s" and "r = Inr n \<Longrightarrow> remaining s' + n \<le> remaining s"
    by auto
qed

lemma EliminateMove_loop_count:
  "EliminateMove_loop ps v k s = (Inr n, s') \<Longrightarrow> k \<le> n"
proof (induction ps arbitrary: k s)
  case Nil
  then show ?case by simp
next
  case (Cons p ps)
  then show ?case
    by (fastforce split: sum.splits prod.splits if_splits)
qed

lemma Cells_FindMove_can_play:
  "Cells_FindMove s c v = Inr r \<Longrightarrow> p \<in> set r \<Longrightarrow> Cell_CanPlay (cell s p) v = Inr True"
  by (induction c arbitrary: r) (auto split: sum.splits if_splits)

lemma Cell_CanPlay_True:
  "Cell_CanPlay c v = Inr True \<Longrightarrow> 1 \<le> v \<and> v \<le> 9 \<and> has (moves c) v"
  unfolding Cell_CanPlay_def
  by (cases "1 \<le> v \<and> v \<le> 9") (auto simp add: Contains_in Contains_out)

definition valid_move :: "int \<Rightarrow> int \<Rightarrow> int \<Rightarrow> Sudoku \<Rightarrow> bool" where
  "valid_move row col v s \<longleftrightarrow>
     0 \<le> row \<and> row < 9 \<and> 0 \<le> col \<and> col < 9 \<and> 1 \<le> v \<and> v \<le> 9 \<and>
     val (cell s (row, col)) = 0 \<and>
     has (Cells_RemainingMoves s (Row row)) v \<and>
     has (Cells_RemainingMoves s (Col col)) v \<and>
     has (Cells_RemainingMoves s (Square (row div 3) (col div 3))) v \<and>
     has (moves (cell s (row, col))) v"

definition played :: "int \<Rightarrow> int \<Rightarrow> int \<Rightarrow> Sudoku \<Rightarrow> Sudoku" where
  "played row col v s =
     (let s0 = put_cell s (row, col) \<lparr>val = v, moves = empty_moves\<rparr>;
          s1 = snd (Cells_EliminateMove s0 (Row row) v);
          s2 = snd (Cells_EliminateMove s1 (Col col) v)
      in snd (Cells_EliminateMove s2 (Square (row div 3) (col div 3)) v))"

lemma PlayMove_valid:
  assumes "valid_move row col v s"
  shows "PlayMove row col v s =
           (scan_no_moves (played row col v s) (Range 0 0 8 8), played row col v s)"
proof -
  let ?s0 = "put_cell s (row, col) \<lparr>val = v, moves = empty_moves\<rparr>"
  let ?sq = "Square (row div 3) (col div 3)"
  from assms have v: "1 \<le> v" "v \<le> 9"
    by (simp_all add: valid_move_def)
  obtain n1 s1 where e1: "Cells_EliminateMove ?s0 (Row row) v = (Inr n1, s1)"
    using Cells_EliminateMove_in [OF v] by blast
  obtain n2 s2 where e2: "Cells_EliminateMove s1 (Col col) v = (Inr n2, s2)"
    using Cells_EliminateMove_in [OF v] by blast
  obtain n3 s3 where e3: "Cells_EliminateMove s2 ?sq v = (Inr n3, s3)"
    using Cells_EliminateMove_in [OF v] by blast
  have set: "Cell_Set (cell s (row, col)) v = (None, \<lparr>val = v, moves = empty_moves\<rparr>)"
    using assms by (simp add: Cell_Set_def valid_move_def)
  have p: "played row col v s = s3"
    by (simp add: played_def e1 e2 e3)
  from assms have "PlayMove row col v s = (scan_no_moves s3 (Range 0 0 8 8), s3)"
    by (simp add: PlayMove_def valid_move_def Contains_in Cell_CanPlay_def set e1 e2 e3)
  with p show ?thesis
    by simp
qed

definition validate :: "int \<Rightarrow> int \<Rightarrow> int \<Rightarrow> Sudoku \<Rightarrow> error option" where
  "validate row col v s =
     (if row < 0 \<or> row \<ge> 9 then Some RowOutOfBounds
      else if col < 0 \<or> col \<ge> 9 then Some ColOutOfBounds
      else if v < 1 \<or> v > 9 then Some ValueOutOfBounds
      else if val (cell s (row, col)) \<noteq> 0 then Some CellAlreadyContains
      else if \<not> has (Cells_RemainingMoves s (Row row)) v then Some RowAlreadyContains
      else if \<not> has (Cells_RemainingMoves s (Col col)) v then Some ColAlreadyContains
      else if \<not> has (Cells_RemainingMoves s (Square (row div 3) (col div 3))) v
        then Some SquareAlreadyContains
      else if \<not> has (moves (cell s (row, col))) v then Some NotAValidSpot
      else None)"

lemma validate_None: "validate row col v s = None \<longleftrightarrow> valid_move row col v s"
  by (auto simp add: validate_def valid_move_def)

lemma PlayMove_invalid:
  assumes "validate row col v s = Some e"
  shows "PlayMove row col v s = (Some e, s)"
proof -
  consider (row) "row < 0 \<or> row \<ge> 9"
    | (col) "0 \<le> row" "row < 9" "col < 0 \<or> col \<ge> 9"
    | (v) "0 \<le> row" "row < 9" "0 \<le> col" "col < 9" "v < 1 \<or> v > 9"
    | (ok) "0 \<le> row" "row < 9" "0 \<le> col" "col < 9" "1 \<le> v" "v \<le> 9"
    by linarith
  then show ?thesis
  proof cases
    case row
    with assms show ?thesis by (auto simp add: PlayMove_def validate_def)
  next
    case col
    with assms show ?thesis by (auto simp add: PlayMove_def validate_def)
  next
    case v
    with assms show ?thesis by (auto simp add: PlayMove_def validate_def)
  next
    case ok
    show ?thesis
    proof (cases "val (cell s (row, col)) \<noteq> 0")
      case True
      with ok assms show ?thesis by (simp add: PlayMove_def validate_def)
    next
      case unset: False
      show ?thesis
      proof (cases "has (Cells_RemainingMoves s (Row row)) v")
        case False
        with ok unset assms show ?thesis
          by (simp add: PlayMove_def validate_def Contains_in)
      next
        case r: True
        show ?thesis
        proof (cases "has (Cells_RemainingMoves s (Col col)) v")
          case False
          with ok unset r assms show ?thesis
            by (simp add: PlayMove_def validate_def Contains_in)
        next
          case c: True
          show ?thesis
          proof (cases "has (Cells_RemainingMoves s (Square (row div 3) (col div 3))) v")
            case False
            with ok unset r c assms show ?thesis
              by (simp add: PlayMove_def validate_def Contains_in)
          next
            case q: True
            with ok unset r c assms have "\<not> has (moves (cell s (row, col))) v" "e = NotAValidSpot"
              by (simp_all add: validate_def split: if_splits)
            with ok unset r c q show ?thesis
              by (simp add: PlayMove_def Contains_in Cell_CanPlay_def)
          qed
        qed
      qed
    qed
  qed
qed

lemma PlayMove_eq:
  "PlayMove row col v s =
     (case validate row col v s of
        Some e \<Rightarrow> (Some e, s)
      | None \<Rightarrow> (scan_no_moves (played row col v s) (Range 0 0 8 8), played row col v s))"
proof (cases "validate row col v s")
  case None
  then have "valid_move row col v s"
    by (simp add: validate_None)
  then show ?thesis
    using None by (simp add: PlayMove_valid)
next
  case (Some e)
  then show ?thesis
    by (simp add: PlayMove_invalid)
qed

lemma Cells_EliminateMove_cell:
  "1 \<le> v \<Longrightarrow> v \<le> 9 \<Longrightarrow>
   cell (snd (Cells_EliminateMove s c v)) q =
     (if norm q \<in> norm ` set c then clear v (cell s q) else cell s q)"
  by (simp add: Cells_EliminateMove_def EliminateMove_loop_cell)

definition peers :: "int \<Rightarrow> int \<Rightarrow> CellRef list" where
  "peers row col = Row row @ Col col @ Square (row div 3) (col div 3)"

lemma has_empty [simp]: "\<not> has empty_moves v"
  by (simp add: has_def empty_moves_def)

lemma clear_assigned [simp]:
  "clear w \<lparr>val = v, moves = empty_moves\<rparr> = \<lparr>val = v, moves = empty_moves\<rparr>"
  by (simp add: clear_def empty_moves_def)

lemma cell_played:
  assumes "1 \<le> v" "v \<le> 9"
  shows "cell (played row col v s) q =
           (if norm q = norm (row, col) then \<lparr>val = v, moves = empty_moves\<rparr>
            else if norm q \<in> norm ` set (peers row col) then clear v (cell s q)
            else cell s q)"
  using assms
  by (auto simp add: played_def Cells_EliminateMove_cell cell_put_cell peers_def)

lemma weight_assigned: "v \<noteq> 0 \<Longrightarrow> weight \<lparr>val = v, moves = empty_moves\<rparr> = 0"
  by (simp add: weight_def)

lemma weight_unset: "val c = 0 \<Longrightarrow> 0 < weight c"
  by (simp add: weight_def)

lemma remaining_played:
  assumes "valid_move row col v s"
  shows "remaining (played row col v s) < remaining s"
proof -
  let ?s0 = "put_cell s (row, col) \<lparr>val = v, moves = empty_moves\<rparr>"
  let ?s1 = "snd (Cells_EliminateMove ?s0 (Row row) v)"
  let ?s2 = "snd (Cells_EliminateMove ?s1 (Col col) v)"
  let ?s3 = "snd (Cells_EliminateMove ?s2 (Square (row div 3) (col div 3)) v)"
  from assms have "val (cell s (row, col)) = 0" "v \<noteq> 0"
    by (auto simp add: valid_move_def)
  then have "0 < weight (cell s (row, col))" "weight \<lparr>val = v, moves = empty_moves\<rparr> = 0"
    by (simp_all add: weight_unset weight_assigned)
  moreover have "remaining ?s0 + weight (cell s (row, col)) = remaining s + weight \<lparr>val = v, moves = empty_moves\<rparr>"
    by (rule remaining_put_cell)
  ultimately have "remaining ?s0 < remaining s"
    by linarith
  moreover have "remaining ?s1 \<le> remaining ?s0"
    by (rule Cells_EliminateMove_remaining(1) [OF surjective_pairing])
  moreover have "remaining ?s2 \<le> remaining ?s1"
    by (rule Cells_EliminateMove_remaining(1) [OF surjective_pairing])
  moreover have "remaining ?s3 \<le> remaining ?s2"
    by (rule Cells_EliminateMove_remaining(1) [OF surjective_pairing])
  ultimately have "remaining ?s3 < remaining s"
    by linarith
  moreover have "played row col v s = ?s3"
    by (simp add: played_def)
  ultimately show ?thesis
    by simp
qed

lemma PlayMove_remaining:
  assumes "PlayMove row col v s = (e, s')"
  shows "remaining s' \<le> remaining s" and "e = None \<Longrightarrow> remaining s' < remaining s"
proof -
  have "remaining s' \<le> remaining s \<and> (e = None \<longrightarrow> remaining s' < remaining s)"
  proof (cases "validate row col v s")
    case None
    then have "valid_move row col v s"
      by (simp add: validate_None)
    then have "remaining (played row col v s) < remaining s"
      by (rule remaining_played)
    with assms None show ?thesis
      by (simp add: PlayMove_eq)
  next
    case (Some e')
    with assms have "e = Some e'" "s' = s"
      by (simp_all add: PlayMove_eq)
    then show ?thesis
      by simp
  qed
  then show "remaining s' \<le> remaining s" and "e = None \<Longrightarrow> remaining s' < remaining s"
    by auto
qed

section \<open>Properties kept by every loop of Solve\<close>

definition stable :: "(progress \<Rightarrow> bool) \<Rightarrow> bool" where
  "stable Q \<longleftrightarrow>
     (\<forall>p v st. Q st \<longrightarrow> Q (snd (play_counted p v st))) \<and>
     (\<forall>c v st. Q st \<longrightarrow> Q (snd (eliminate_counted c v st))) \<and>
     (\<forall>c v st. Q st \<longrightarrow> Q (snd (subset_value c v st)))"

lemma stable_play: "stable Q \<Longrightarrow> Q st \<Longrightarrow> Q (snd (play_counted p v st))"
  unfolding stable_def by blast

lemma stable_eliminate: "stable Q \<Longrightarrow> Q st \<Longrightarrow> Q (snd (eliminate_counted c v st))"
  unfolding stable_def by blast

lemma stable_subset_value: "stable Q \<Longrightarrow> Q st \<Longrightarrow> Q (snd (subset_value c v st))"
  unfolding stable_def by blast

lemma for_each_keeps:
  assumes "\<And>x st. x \<in> set xs \<Longrightarrow> Q st \<Longrightarrow> Q (snd (body x st))" and "Q st"
  shows "Q (snd (for_each xs body st))"
  using assms
proof (induction xs arbitrary: st)
  case Nil
  then show ?case by simp
next
  case (Cons x xs)
  have step: "Q (snd (body x st))"
    using Cons.prems by simp
  obtain e st' where b: "body x st = (e, st')"
    by (cases "body x st")
  show ?case
  proof (cases e)
    case None
    with b step Cons show ?thesis by simp
  next
    case (Some err)
    with b step show ?thesis by simp
  qed
qed

lemma each_remaining_move_keeps:
  assumes "\<And>v st. Q st \<Longrightarrow> Q (snd (body g v st))" and "Q st"
  shows "Q (snd (each_remaining_move body g st))"
proof (cases "Moves_Slice (Cells_RemainingMoves (snd st) g)")
  case (Inl e)
  with assms(2) show ?thesis
    by (simp add: each_remaining_move_def)
next
  case (Inr vs)
  have "Q (snd (for_each vs (body g) st))"
    by (rule for_each_keeps [where Q = Q]) (simp_all add: assms)
  with Inr show ?thesis
    by (simp add: each_remaining_move_def)
qed

lemma naked_single_keeps:
  assumes "stable Q" "Q st"
  shows "Q (snd (naked_single p st))"
proof (cases "Cell_Moves (cell (snd st) p)")
  case (Inl e)
  with assms(2) show ?thesis
    by (simp add: naked_single_def)
next
  case (Inr possibleMoves)
  have "Q (snd (play_counted p (hd possibleMoves) st))"
    using assms by (rule stable_play)
  with Inr assms(2) show ?thesis
    by (simp add: naked_single_def)
qed

lemma hidden_single_keeps:
  assumes "stable Q" "Q st"
  shows "Q (snd (hidden_single g v st))"
proof (cases "Cells_FindMove (snd st) g v")
  case (Inl e)
  with assms(2) show ?thesis
    by (simp add: hidden_single_def)
next
  case (Inr cells)
  have "Q (snd (play_counted (hd cells) v st))"
    using assms by (rule stable_play)
  with Inr assms(2) show ?thesis
    by (simp add: hidden_single_def)
qed

lemma square_line_keeps:
  assumes "stable Q" "Q st"
  shows "Q (snd (square_line g v st))"
proof (cases "Cells_FindMove (snd st) g v")
  case (Inl e)
  with assms show ?thesis by (simp add: square_line_def)
next
  case (Inr cells)
  let ?first = "if length (Cells_UniqueRows cells) = 1
     then eliminate_counted (Cells_Excluding (Row (hd (Cells_UniqueRows cells))) g) v st
     else (None, st)"
  obtain e st1 where f: "?first = (e, st1)"
    by (cases ?first)
  have "Q (snd ?first)"
    using assms by (simp add: stable_eliminate)
  with f have q1: "Q st1" by simp
  show ?thesis
  proof (cases e)
    case None
    have "Q (snd (eliminate_counted (Cells_Excluding (Col (hd (Cells_UniqueCols cells))) g) v st1))"
      using assms(1) q1 by (rule stable_eliminate)
    with None Inr f q1 show ?thesis
      by (simp add: square_line_def Let_def)
  next
    case (Some err)
    with Inr f q1 show ?thesis
      by (simp add: square_line_def Let_def)
  qed
qed

lemma row_square_keeps:
  assumes "stable Q" "Q st"
  shows "Q (snd (row_square g v st))"
proof (cases "Cells_FindMove (snd st) g v")
  case (Inl e)
  with assms show ?thesis by (simp add: row_square_def)
next
  case (Inr cells)
  have "Q (snd (eliminate_counted c v st))" for c
    using assms by (rule stable_eliminate)
  with Inr assms(2) show ?thesis
    by (simp add: row_square_def Let_def)
qed

lemma col_square_keeps:
  assumes "stable Q" "Q st"
  shows "Q (snd (col_square g v st))"
proof (cases "Cells_FindMove (snd st) g v")
  case (Inl e)
  with assms show ?thesis by (simp add: col_square_def)
next
  case (Inr cells)
  have "Q (snd (eliminate_counted c v st))" for c
    using assms by (rule stable_eliminate)
  with Inr assms(2) show ?thesis
    by (simp add: col_square_def Let_def)
qed

lemma subset_step_keeps:
  assumes "stable Q" "Q st"
  shows "Q (snd (subset_step g sub st))"
proof (cases "Moves_Slice (Cells_RemainingMoves (snd st) sub)")
  case (Inl e)
  with assms show ?thesis by (simp add: subset_step_def)
next
  case (Inr remainingMoves)
  have "Q (snd (for_each remainingMoves (subset_value c) st))" for c
    by (rule for_each_keeps [where Q = Q]) (simp_all add: assms stable_subset_value [where Q = Q])
  with Inr assms(2) show ?thesis
    by (simp add: subset_step_def Let_def)
qed

lemma subset_group_keeps:
  assumes "stable Q" "Q st"
  shows "Q (snd (subset_group g st))"
  unfolding subset_group_def Let_def
  by (rule for_each_keeps [where Q = Q]) (simp_all add: assms subset_step_keeps [where Q = Q])

lemma subset_pass_keeps:
  assumes "stable Q" "Q st"
  shows "Q (snd (subset_pass st))"
  unfolding subset_pass_def
  by (rule for_each_keeps [where Q = Q]) (simp_all add: assms subset_group_keeps [where Q = Q])

lemma group_loop_keeps:
  assumes "\<And>g v st. Q st \<Longrightarrow> Q (snd (body g v st))" and "Q st"
  shows "Q (snd (for_each gs (each_remaining_move body) st))"
proof (rule for_each_keeps [where Q = Q])
  fix g st'
  assume "Q st'"
  then show "Q (snd (each_remaining_move body g st'))"
    by (rule each_remaining_move_keeps [where Q = Q, rotated]) (rule assms(1))
qed (rule assms(2))

lemma deduction_loops_keep:
  assumes "stable Q" "loop \<in> set deduction_loops" "Q st"
  shows "Q (snd (loop st))"
proof -
  have "Q (snd (for_each Cells naked_single st))"
    by (rule for_each_keeps [where Q = Q]) (simp_all add: assms naked_single_keeps [where Q = Q])
  moreover have "Q (snd (for_each gs (each_remaining_move hidden_single) st))" for gs
    by (rule group_loop_keeps [where Q = Q]) (simp_all add: assms hidden_single_keeps [where Q = Q])
  moreover have "Q (snd (for_each gs (each_remaining_move square_line) st))" for gs
    by (rule group_loop_keeps [where Q = Q]) (simp_all add: assms square_line_keeps [where Q = Q])
  moreover have "Q (snd (for_each gs (each_remaining_move row_square) st))" for gs
    by (rule group_loop_keeps [where Q = Q]) (simp_all add: assms row_square_keeps [where Q = Q])
  moreover have "Q (snd (for_each gs (each_remaining_move col_square) st))" for gs
    by (rule group_loop_keeps [where Q = Q]) (simp_all add: assms col_square_keeps [where Q = Q])
  ultimately show ?thesis
    using assms(2) unfolding deduction_loops_def by auto
qed

lemma deduce_keeps:
  assumes "stable Q" "Q st"
  shows "Q (snd (deduce st))"
  unfolding deduce_def
  by (rule for_each_keeps [where Q = Q]) (simp_all add: assms deduction_loops_keep [where Q = Q])

definition within :: "nat \<Rightarrow> progress \<Rightarrow> bool" where
  "within K st \<longleftrightarrow> remaining (snd st) + fst st \<le> K"

lemma play_counted_within:
  assumes "within K st"
  shows "within K (snd (play_counted p v st))"
proof -
  obtain e s' where pm: "PlayMove (fst p) (snd p) v (snd st) = (e, s')"
    by (cases "PlayMove (fst p) (snd p) v (snd st)")
  have le: "remaining s' \<le> remaining (snd st)" and lt: "e = None \<Longrightarrow> remaining s' < remaining (snd st)"
    using PlayMove_remaining [OF pm] by auto
  show ?thesis
  proof (cases e)
    case None
    with pm lt assms show ?thesis
      by (simp add: play_counted_def within_def)
  next
    case (Some err)
    with pm le assms show ?thesis
      by (simp add: play_counted_def within_def)
  qed
qed

lemma eliminate_counted_within:
  assumes "within K st"
  shows "within K (snd (eliminate_counted c v st))"
proof -
  obtain r s' where el: "Cells_EliminateMove (snd st) c v = (r, s')"
    by (cases "Cells_EliminateMove (snd st) c v")
  show ?thesis
  proof (cases r)
    case (Inl e)
    with el assms Cells_EliminateMove_remaining(1) [OF el] show ?thesis
      by (simp add: eliminate_counted_def within_def)
  next
    case (Inr n)
    with el assms Cells_EliminateMove_remaining(2) [OF el, of n] show ?thesis
      by (simp add: eliminate_counted_def within_def)
  qed
qed

lemma Cells_EliminateMove_changes:
  assumes "Cells_FindMove s c v = Inr excludable" "excludable \<noteq> []"
    and "Cells_EliminateMove s excludable v = (Inr n, s')"
  shows "0 < n"
proof -
  obtain p ps where ex: "excludable = p # ps"
    using assms(2) by (cases excludable) auto
  then have "Cell_CanPlay (cell s p) v = Inr True"
    using Cells_FindMove_can_play [OF assms(1), of p] by simp
  then have v: "1 \<le> v" "v \<le> 9" "has (moves (cell s p)) v"
    using Cell_CanPlay_True by blast+
  with assms(3) ex
  have "EliminateMove_loop ps v 1 (put_cell s p (clear v (cell s p))) = (Inr n, s')"
    by (simp add: Cells_EliminateMove_def Cell_EliminateMove_in)
  then have "1 \<le> n"
    by (rule EliminateMove_loop_count)
  then show ?thesis
    by simp
qed

lemma subset_value_within:
  assumes "within K st"
  shows "within K (snd (subset_value c v st))"
proof (cases "Cells_FindMove (snd st) c v")
  case (Inl e)
  with assms show ?thesis
    by (simp add: subset_value_def)
next
  case (Inr excludable)
  show ?thesis
  proof (cases "excludable = []")
    case True
    with Inr assms show ?thesis
      by (simp add: subset_value_def)
  next
    case False
    obtain r s' where el: "Cells_EliminateMove (snd st) excludable v = (r, s')"
      by (cases "Cells_EliminateMove (snd st) excludable v")
    show ?thesis
    proof (cases r)
      case (Inl e)
      with el Inr False assms Cells_EliminateMove_remaining(1) [OF el] show ?thesis
        by (simp add: subset_value_def within_def)
    next
      case r: (Inr n)
      with el have "0 < n"
        using Cells_EliminateMove_changes [OF Inr False] by simp
      with r el Inr False assms Cells_EliminateMove_remaining(2) [OF el, of n] show ?thesis
        by (simp add: subset_value_def within_def)
    qed
  qed
qed

lemma stable_within: "stable (within K)"
  unfolding stable_def
  by (intro conjI allI impI play_counted_within eliminate_counted_within subset_value_within)

lemma deduce_remaining:
  assumes "deduce (0, s) = (e, (n, s'))"
  shows "remaining s' + n \<le> remaining s"
proof -
  have "within (remaining s) (snd (deduce (0, s)))"
    by (rule deduce_keeps [OF stable_within]) (simp add: within_def)
  with assms show ?thesis
    by (simp add: within_def)
qed

lemma subset_pass_remaining:
  assumes "subset_pass (k, s) = (e, (n, s'))"
  shows "remaining s' + n \<le> remaining s + k"
proof -
  have "within (remaining s + k) (snd (subset_pass (k, s)))"
    by (rule subset_pass_keeps [OF stable_within]) (simp add: within_def)
  with assms show ?thesis
    by (simp add: within_def)
qed

lemma Solve_call_cases:
  obtains (failed) err n s1 where "deduce (0, s) = (Some err, (n, s1))" "Solve_call s = Return (Some err, s1)"
  | (solved) n s1 where "deduce (0, s) = (None, (n, s1))" "length (Cells_UnsetOnly s1 Cells) = 0"
      "Solve_call s = Return (None, s1)"
  | (progress) n s1 where "deduce (0, s) = (None, (n, s1))" "length (Cells_UnsetOnly s1 Cells) \<noteq> 0"
      "0 < n" "Solve_call s = Again s1"
  | (subset_failed) s1 err n2 s2 where "deduce (0, s) = (None, (0, s1))"
      "length (Cells_UnsetOnly s1 Cells) \<noteq> 0"
      "subset_pass (0, s1) = (Some err, (n2, s2))" "Solve_call s = Return (Some err, s2)"
  | (subset_progress) s1 n2 s2 where "deduce (0, s) = (None, (0, s1))"
      "length (Cells_UnsetOnly s1 Cells) \<noteq> 0"
      "subset_pass (0, s1) = (None, (n2, s2))" "0 < n2" "Solve_call s = Again s2"
  | (stuck) s1 s2 where "deduce (0, s) = (None, (0, s1))"
      "length (Cells_UnsetOnly s1 Cells) \<noteq> 0"
      "subset_pass (0, s1) = (None, (0, s2))" "Solve_call s = Return (Some NoSolutionFound, s2)"
proof -
  obtain e n s1 where d: "deduce (0, s) = (e, (n, s1))"
    by (metis prod.collapse)
  obtain e2 n2 s2 where p: "subset_pass (n, s1) = (e2, (n2, s2))"
    by (metis prod.collapse)
  show thesis
  proof (cases e)
    case (Some err)
    with d show ?thesis
      by (intro failed [of err n s1]) (simp_all add: Solve_call_def)
  next
    case None
    show ?thesis
    proof (cases "length (Cells_UnsetOnly s1 Cells) = 0")
      case True
      with None d show ?thesis
        by (intro solved [of n s1]) (simp_all add: Solve_call_def)
    next
      case unset: False
      show ?thesis
      proof (cases "0 < n")
        case True
        with None unset d show ?thesis
          by (intro progress [of n s1]) (simp_all add: Solve_call_def)
      next
        case False
        then have n: "n = 0"
          by simp
        show ?thesis
        proof (cases e2)
          case (Some err)
          with None unset n d p show ?thesis
            by (intro subset_failed [of s1 err n2 s2]) (simp_all add: Solve_call_def)
        next
          case none2: None
          show ?thesis
          proof (cases "0 < n2")
            case True
            with None unset n none2 d p show ?thesis
              by (intro subset_progress [of s1 n2 s2]) (simp_all add: Solve_call_def)
          next
            case False
            with None unset n none2 d p show ?thesis
              by (intro stuck [of s1 s2]) (simp_all add: Solve_call_def)
          qed
        qed
      qed
    qed
  qed
qed

lemma Solve_call_Again:
  assumes "Solve_call s = Again s'"
  shows "remaining s' < remaining s"
proof (cases s rule: Solve_call_cases)
  case (progress n s1)
  with assms deduce_remaining [OF progress(1)] show ?thesis
    by simp
next
  case (subset_progress s1 n2 s2)
  with assms deduce_remaining [OF subset_progress(1)] subset_pass_remaining [OF subset_progress(3)]
  show ?thesis
    by simp
qed (use assms in simp_all)

text \<open>Solve: a call, and where the call ends in \<^verbatim>\<open>return s.Solve()\<close>, Solve again.\<close>

function Solve :: "Sudoku \<Rightarrow> error option \<times> Sudoku" where
  "Solve s = (case Solve_call s of Return r \<Rightarrow> r | Again s' \<Rightarrow> Solve s')"
  by pat_completeness auto
termination
  by (relation "measure remaining") (simp_all add: Solve_call_Again)

text \<open>The equation of \<open>Solve\<close> is unfolded by hand, one call at a time.\<close>

declare Solve.simps [simp del]

section \<open>What PlayMove returns and leaves\<close>

lemma validate_kinds:
  "validate row col v s = Some e \<Longrightarrow>
   e \<in> {RowOutOfBounds, ColOutOfBounds, ValueOutOfBounds, CellAlreadyContains,
        RowAlreadyContains, ColAlreadyContains, SquareAlreadyContains, NotAValidSpot}"
  by (auto simp add: validate_def split: if_splits)

lemma scan_no_moves_Some:
  "scan_no_moves s ps = Some e \<Longrightarrow>
   \<exists>p \<in> set ps. e = NoMovesLeft (fst p + 1) (snd p + 1) \<and>
     val (cell s p) = 0 \<and> moves (cell s p) = empty_moves"
  by (induction ps) (auto split: if_splits)

lemma scan_no_moves_None:
  "scan_no_moves s ps = None \<longleftrightarrow>
   (\<forall>p \<in> set ps. \<not> (val (cell s p) = 0 \<and> moves (cell s p) = empty_moves))"
  by (induction ps) auto

lemma played_target:
  "1 \<le> v \<Longrightarrow> v \<le> 9 \<Longrightarrow> cell (played row col v s) (row, col) = \<lparr>val = v, moves = empty_moves\<rparr>"
  by (simp add: cell_played)

lemma played_peers:
  assumes "1 \<le> v" "v \<le> 9" "p \<in> set (peers row col)"
  shows "\<not> has (moves (cell (played row col v s) p)) v"
  using assms by (auto simp add: cell_played has_clear)

section \<open>Groups and the candidates of peers\<close>

subsection \<open>Which cells a group holds\<close>

lemma set_Range:
  "p \<in> set (Range t l b r) \<longleftrightarrow> t \<le> fst p \<and> fst p \<le> b \<and> l \<le> snd p \<and> snd p \<le> r"
  by (cases p) (auto simp add: Range_def image_iff)

lemma set_Cells: "p \<in> set Cells \<longleftrightarrow> 0 \<le> fst p \<and> fst p \<le> 8 \<and> 0 \<le> snd p \<and> snd p \<le> 8"
  by (simp add: Cells_def set_Range)

lemma set_Row: "p \<in> set (Row row) \<longleftrightarrow> fst p = row \<and> 0 \<le> snd p \<and> snd p \<le> 8"
  by (auto simp add: Row_def set_Range)

lemma set_Col: "p \<in> set (Col col) \<longleftrightarrow> snd p = col \<and> 0 \<le> fst p \<and> fst p \<le> 8"
  by (auto simp add: Col_def set_Range)

lemma set_Square:
  "p \<in> set (Square i j) \<longleftrightarrow> fst p div 3 = i \<and> snd p div 3 = j"
  by (auto simp add: Square_def set_Range)

lemma set_peers:
  "p \<in> set (peers row col) \<longleftrightarrow>
     (fst p = row \<and> 0 \<le> snd p \<and> snd p \<le> 8) \<or>
     (snd p = col \<and> 0 \<le> fst p \<and> fst p \<le> 8) \<or>
     (fst p div 3 = row div 3 \<and> snd p div 3 = col div 3)"
  by (auto simp add: peers_def set_Row set_Col set_Square)

lemma norm_in_grid: "p \<in> set Cells \<Longrightarrow> norm p = p"
  by (cases p) (simp add: set_Cells norm_def slot_def)

lemma has_RemainingMoves:
  "has (Cells_RemainingMoves s c) v \<longleftrightarrow> (\<exists>p \<in> set c. has (moves (cell s p)) v)"
proof -
  have "has (foldl (\<lambda>m p. m OR moves (cell s p)) m0 c) v \<longleftrightarrow>
          has m0 v \<or> (\<exists>p \<in> set c. has (moves (cell s p)) v)" for m0
    by (induction c arbitrary: m0) (auto simp add: has_def bit_simps)
  then show ?thesis
    by (simp add: Cells_RemainingMoves_def)
qed

subsection \<open>Assigned values are gone from the candidates of their peers\<close>

definition settled :: "Sudoku \<Rightarrow> bool" where
  "settled s \<longleftrightarrow>
     (\<forall>q \<in> set Cells. val (cell s q) \<noteq> 0 \<longrightarrow>
        (\<forall>p \<in> set (peers (fst q) (snd q)). \<not> has (moves (cell s p)) (val (cell s q))))"

lemma has_clear_imp: "has (moves (clear v c)) w \<Longrightarrow> has (moves c) w"
  by (simp add: clear_def has_def bit_simps)

lemma Cells_EliminateMove_val: "val (cell (snd (Cells_EliminateMove s c v)) p) = val (cell s p)"
proof (cases "1 \<le> v \<and> v \<le> 9")
  case True
  then show ?thesis
    by (simp add: Cells_EliminateMove_cell)
next
  case False
  then have "v < 1 \<or> v > 9" by auto
  then show ?thesis
    by (simp add: Cells_EliminateMove_out)
qed

lemma Cells_EliminateMove_has:
  "has (moves (cell (snd (Cells_EliminateMove s c v)) p)) w \<Longrightarrow> has (moves (cell s p)) w"
proof (cases "1 \<le> v \<and> v \<le> 9")
  case True
  assume "has (moves (cell (snd (Cells_EliminateMove s c v)) p)) w"
  with True show ?thesis
    by (auto simp add: Cells_EliminateMove_cell has_clear_imp split: if_splits)
next
  case False
  then have "v < 1 \<or> v > 9" by auto
  moreover assume "has (moves (cell (snd (Cells_EliminateMove s c v)) p)) w"
  ultimately show ?thesis
    by (simp add: Cells_EliminateMove_out)
qed



lemma played_has:
  assumes "1 \<le> v" "v \<le> 9" "has (moves (cell (played row col v s) p)) w"
  shows "has (moves (cell s p)) w"
proof (cases "norm p = norm (row, col)")
  case True
  with assms show ?thesis
    by (simp add: cell_played)
next
  case False
  show ?thesis
  proof (cases "norm p \<in> norm ` set (peers row col)")
    case True
    with False assms have "has (moves (clear v (cell s p))) w"
      by (simp add: cell_played)
    then show ?thesis
      by (rule has_clear_imp)
  next
    case no: False
    with False assms show ?thesis
      by (simp add: cell_played)
  qed
qed

lemma played_val:
  assumes "1 \<le> v" "v \<le> 9" "norm q \<noteq> norm (row, col)"
  shows "val (cell (played row col v s) q) = val (cell s q)"
  using assms by (simp add: cell_played)

lemma played_settled:
  assumes "settled s" "valid_move row col v s"
  shows "settled (played row col v s)"
  unfolding settled_def
proof (intro ballI impI)
  fix q p
  let ?s' = "played row col v s"
  assume q: "q \<in> set Cells" and set: "val (cell ?s' q) \<noteq> 0" and p: "p \<in> set (peers (fst q) (snd q))"
  from assms(2) have v: "1 \<le> v" "v \<le> 9" and rc: "(row, col) \<in> set Cells"
    by (simp_all add: valid_move_def set_Cells)
  show "\<not> has (moves (cell ?s' p)) (val (cell ?s' q))"
  proof (cases "q = (row, col)")
    case True
    with v have "val (cell ?s' q) = v"
      by (simp add: played_target)
    moreover from True p have "p \<in> set (peers row col)"
      by simp
    ultimately show ?thesis
      using v by (simp add: played_peers)
  next
    case False
    with q rc have "norm q \<noteq> norm (row, col)"
      by (simp add: norm_in_grid)
    with v have same: "val (cell ?s' q) = val (cell s q)"
      by (rule played_val)
    with set q p assms(1) have "\<not> has (moves (cell s p)) (val (cell s q))"
      by (simp add: settled_def)
    with same v show ?thesis
      using played_has [of v row col s p "val (cell s q)"] by auto
  qed
qed

lemma PlayMove_settled:
  assumes "settled s"
  shows "settled (snd (PlayMove row col v s))"
proof (cases "validate row col v s")
  case None
  then have "valid_move row col v s"
    by (simp add: validate_None)
  with assms show ?thesis
    by (simp add: PlayMove_valid played_settled)
next
  case (Some e)
  with assms show ?thesis
    by (simp add: PlayMove_eq)
qed

lemma at_fill9: "at (fill9 x) i = x"
  by (simp add: fill9_def)

lemma cell_new_board: "cell new_board p = \<lparr>val = 0, moves = full_moves\<rparr>"
  by (simp add: cell_def new_board_def at_fill9)

lemma new_board_settled: "settled new_board"
  by (simp add: settled_def cell_new_board)

lemma NewSudoku_loop_settled:
  "settled s \<Longrightarrow> settled (snd (NewSudoku_loop board ps s))"
proof (induction ps arbitrary: s)
  case Nil
  then show ?case by simp
next
  case (Cons p ps)
  let ?v = "at (at board (fst p)) (snd p)"
  obtain e s' where pm: "PlayMove (fst p) (snd p) ?v s = (e, s')"
    by (cases "PlayMove (fst p) (snd p) ?v s")
  with Cons.prems have "settled s'"
    using PlayMove_settled [of s "fst p" "snd p" ?v] by simp
  with Cons pm show ?case
    by (cases e) (simp_all add: Let_def)
qed

lemma NewSudoku_settled: "settled (snd (NewSudoku board))"
  unfolding NewSudoku_def by (rule NewSudoku_loop_settled) (rule new_board_settled)

section \<open>What Solve keeps\<close>

lemma play_counted_board:
  "snd (snd (play_counted p v st)) = snd (PlayMove (fst p) (snd p) v (snd st))"
  by (cases "PlayMove (fst p) (snd p) v (snd st)")
     (auto simp add: play_counted_def split: option.splits)

lemma eliminate_counted_board:
  "snd (snd (eliminate_counted c v st)) = snd (Cells_EliminateMove (snd st) c v)"
  by (cases "Cells_EliminateMove (snd st) c v")
     (auto simp add: eliminate_counted_def split: sum.splits)

lemma subset_value_board:
  "snd (snd (subset_value c v st)) = snd st \<or>
   (\<exists>excludable. snd (snd (subset_value c v st)) = snd (Cells_EliminateMove (snd st) excludable v))"
proof (cases "Cells_FindMove (snd st) c v")
  case (Inl e)
  then show ?thesis
    by (simp add: subset_value_def)
next
  case (Inr excludable)
  show ?thesis
  proof (cases "excludable = []")
    case True
    with Inr show ?thesis
      by (simp add: subset_value_def)
  next
    case False
    with Inr have "snd (snd (subset_value c v st)) = snd (Cells_EliminateMove (snd st) excludable v)"
      by (cases "Cells_EliminateMove (snd st) excludable v")
         (auto simp add: subset_value_def split: sum.splits)
    then show ?thesis
      by blast
  qed
qed

lemma stable_board:
  assumes play: "\<And>row col v s. P s \<Longrightarrow> P (snd (PlayMove row col v s))"
    and elim: "\<And>c v s. P s \<Longrightarrow> P (snd (Cells_EliminateMove s c v))"
  shows "stable (\<lambda>st. P (snd st))"
  unfolding stable_def
proof (intro conjI allI impI)
  fix p v and st :: progress
  assume "P (snd st)"
  then show "P (snd (snd (play_counted p v st)))"
    by (simp add: play_counted_board play)
next
  fix c v and st :: progress
  assume "P (snd st)"
  then show "P (snd (snd (eliminate_counted c v st)))"
    by (simp add: eliminate_counted_board elim)
next
  fix c v and st :: progress
  assume "P (snd st)"
  then show "P (snd (snd (subset_value c v st)))"
    using subset_value_board [of c v st] elim [of "snd st"] by auto
qed

lemma Solve_call_keeps:
  assumes "stable (\<lambda>st. P (snd st))" and "P s"
  shows "Solve_call s = Return (e, s') \<Longrightarrow> P s'" and "Solve_call s = Again s' \<Longrightarrow> P s'"
proof -
  have d: "P s1" if "deduce (0, s) = (e1, (n, s1))" for e1 n s1
  proof -
    have "P (snd (snd (deduce (0, s))))"
      using assms(1) by (rule deduce_keeps) (simp add: assms(2))
    with that show ?thesis
      by simp
  qed
  have p: "P s2" if "P s1" "subset_pass (n, s1) = (e2, (n2, s2))" for s1 n e2 n2 s2
  proof -
    have "P (snd (snd (subset_pass (n, s1))))"
      using assms(1) by (rule subset_pass_keeps) (simp add: that(1))
    with that(2) show ?thesis
      by simp
  qed
  show "Solve_call s = Return (e, s') \<Longrightarrow> P s'"
    by (cases s rule: Solve_call_cases) (auto dest: d p)
  show "Solve_call s = Again s' \<Longrightarrow> P s'"
    by (cases s rule: Solve_call_cases) (auto dest: d p)
qed

lemma Solve_keeps:
  assumes "stable (\<lambda>st. P (snd st))" and "P s"
  shows "P (snd (Solve s))"
  using assms(2)
proof (induction s rule: Solve.induct)
  case (1 s)
  show ?case
  proof (cases "Solve_call s")
    case (Return r)
    then have "Solve_call s = Return (fst r, snd r)"
      by simp
    then have "P (snd r)"
      using assms(1) "1.prems" by (rule Solve_call_keeps(1) [rotated 2])
    with Return show ?thesis
      by (simp add: Solve.simps [of s])
  next
    case (Again s')
    then have "P s'"
      using assms(1) "1.prems" by (rule Solve_call_keeps(2) [rotated 2])
    with Again "1.IH" show ?thesis
      by (simp add: Solve.simps [of s])
  qed
qed

subsection \<open>Assigned cells stay, candidate sets shrink\<close>

definition evolves :: "Sudoku \<Rightarrow> Sudoku \<Rightarrow> bool" where
  "evolves s s' \<longleftrightarrow>
     (\<forall>p. (val (cell s p) \<noteq> 0 \<longrightarrow> val (cell s' p) = val (cell s p)) \<and>
          (\<forall>w. has (moves (cell s' p)) w \<longrightarrow> has (moves (cell s p)) w))"

lemma evolves_refl: "evolves s s"
  by (simp add: evolves_def)

lemma evolves_trans: "evolves s s' \<Longrightarrow> evolves s' s'' \<Longrightarrow> evolves s s''"
  unfolding evolves_def by metis

lemma Cells_EliminateMove_evolves: "evolves s (snd (Cells_EliminateMove s c v))"
  unfolding evolves_def
  using Cells_EliminateMove_val [of s c v] Cells_EliminateMove_has [of s c v] by blast

lemma played_evolves:
  assumes "valid_move row col v s"
  shows "evolves s (played row col v s)"
  unfolding evolves_def
proof (intro allI conjI impI)
  from assms have v: "1 \<le> v" "v \<le> 9" and free: "val (cell s (row, col)) = 0"
    by (simp_all add: valid_move_def)
  fix p
  assume set: "val (cell s p) \<noteq> 0"
  have "norm p \<noteq> norm (row, col)"
  proof
    assume "norm p = norm (row, col)"
    then have "cell s p = cell s (row, col)"
      by (rule cell_norm_cong)
    with set free show False
      by simp
  qed
  with v show "val (cell (played row col v s) p) = val (cell s p)"
    by (rule played_val)
next
  from assms have v: "1 \<le> v" "v \<le> 9"
    by (simp_all add: valid_move_def)
  fix p w
  assume "has (moves (cell (played row col v s) p)) w"
  with v show "has (moves (cell s p)) w"
    by (rule played_has)
qed

lemma PlayMove_evolves: "evolves s (snd (PlayMove row col v s))"
proof (cases "validate row col v s")
  case None
  then have "valid_move row col v s"
    by (simp add: validate_None)
  then show ?thesis
    by (simp add: PlayMove_valid played_evolves)
next
  case (Some e)
  then show ?thesis
    by (simp add: PlayMove_eq evolves_refl)
qed

lemma stable_evolves: "stable (\<lambda>st. evolves s0 (snd st))"
proof (rule stable_board)
  fix row col v s
  assume "evolves s0 s"
  then show "evolves s0 (snd (PlayMove row col v s))"
    using PlayMove_evolves by (rule evolves_trans)
next
  fix c v s
  assume "evolves s0 s"
  then show "evolves s0 (snd (Cells_EliminateMove s c v))"
    using Cells_EliminateMove_evolves by (rule evolves_trans)
qed

lemma Solve_evolves: "evolves s (snd (Solve s))"
  using stable_evolves evolves_refl by (rule Solve_keeps)

lemma put_cell_evolves:
  assumes "val (cell s p) \<noteq> 0 \<longrightarrow> val c = val (cell s p)"
    and "\<And>w. has (moves c) w \<Longrightarrow> has (moves (cell s p)) w"
  shows "evolves s (put_cell s p c)"
  unfolding evolves_def
proof (intro allI conjI impI)
  fix q
  assume "val (cell s q) \<noteq> 0"
  with assms(1) show "val (cell (put_cell s p c) q) = val (cell s q)"
    using cell_norm_cong [of p q s] by (auto simp add: cell_put_cell)
next
  fix q w
  assume "has (moves (cell (put_cell s p c) q)) w"
  with assms(2) [of w] show "has (moves (cell s q)) w"
    using cell_norm_cong [of p q s] by (auto simp add: cell_put_cell split: if_splits)
qed


section \<open>The subset step\<close>

lemma Slice_values:
  assumes "Moves_Slice m = Inr vs"
  shows "vs = filter (has m) [1..9]" and "\<And>v. v \<in> set vs \<Longrightarrow> 1 \<le> v \<and> v \<le> 9 \<and> has m v"
  using assms by (auto simp add: Slice_eq)

lemma Cells_FindMove_in:
  "1 \<le> v \<Longrightarrow> v \<le> 9 \<Longrightarrow>
   Cells_FindMove s c v = Inr (filter (\<lambda>p. has (moves (cell s p)) v) c)"
  by (induction c) (simp_all add: Cell_CanPlay_def Contains_in)

lemma Cells_EliminateMove_Nil: "Cells_EliminateMove s [] v = (Inr 0, s)"
  by (simp add: Cells_EliminateMove_def)

lemma subset_value_in:
  assumes "1 \<le> v" "v \<le> 9"
  shows "fst (subset_value other v st) = None"
    and "snd (snd (subset_value other v st)) =
           snd (Cells_EliminateMove (snd st) (filter (\<lambda>p. has (moves (cell (snd st) p)) v) other) v)"
proof -
  let ?ex = "filter (\<lambda>p. has (moves (cell (snd st) p)) v) other"
  obtain n s' where el: "Cells_EliminateMove (snd st) ?ex v = (Inr n, s')"
    using Cells_EliminateMove_in [OF assms] by blast
  show "fst (subset_value other v st) = None"
    using assms el by (simp add: subset_value_def Cells_FindMove_in)
  show "snd (snd (subset_value other v st)) = snd (Cells_EliminateMove (snd st) ?ex v)"
  proof (cases "?ex = []")
    case True
    with assms show ?thesis
      by (simp add: subset_value_def Cells_FindMove_in Cells_EliminateMove_Nil)
  next
    case False
    with assms el show ?thesis
      by (simp add: subset_value_def Cells_FindMove_in)
  qed
qed

lemma subset_value_clears:
  assumes "1 \<le> v" "v \<le> 9" "p \<in> set other"
  shows "\<not> has (moves (cell (snd (snd (subset_value other v st))) p)) v"
proof -
  let ?ex = "filter (\<lambda>p. has (moves (cell (snd st) p)) v) other"
  have c: "cell (snd (snd (subset_value other v st))) p =
             (if norm p \<in> norm ` set ?ex then clear v (cell (snd st) p) else cell (snd st) p)"
    using assms by (simp add: subset_value_in Cells_EliminateMove_cell)
  show ?thesis
  proof (cases "norm p \<in> norm ` set ?ex")
    case True
    with c assms show ?thesis
      by (simp add: has_clear)
  next
    case False
    then have "p \<notin> set ?ex"
      by blast
    with assms(3) have "\<not> has (moves (cell (snd st) p)) v"
      by simp
    with False c show ?thesis
      by simp
  qed
qed

lemma subset_value_evolves:
  "evolves (snd st) (snd (snd (subset_value other v st)))"
  using subset_value_board [of other v st] Cells_EliminateMove_evolves [of "snd st"]
  by (auto simp add: evolves_refl)

lemma evolves_has: "evolves s s' \<Longrightarrow> has (moves (cell s' p)) w \<Longrightarrow> has (moves (cell s p)) w"
  unfolding evolves_def by blast

lemma subset_values_clear:
  assumes "\<forall>v \<in> set vs. 1 \<le> v \<and> v \<le> 9"
  shows "fst (for_each vs (subset_value other) st) = None \<and>
         evolves (snd st) (snd (snd (for_each vs (subset_value other) st))) \<and>
         (\<forall>v \<in> set vs. \<forall>p \<in> set other.
            \<not> has (moves (cell (snd (snd (for_each vs (subset_value other) st))) p)) v)"
  using assms
proof (induction vs arbitrary: st)
  case Nil
  then show ?case
    by (simp add: evolves_refl)
next
  case (Cons v vs)
  let ?st1 = "snd (subset_value other v st)"
  let ?st2 = "snd (for_each vs (subset_value other) ?st1)"
  from Cons.prems have v: "1 \<le> v" "v \<le> 9" and vs: "\<forall>w \<in> set vs. 1 \<le> w \<and> w \<le> 9"
    by simp_all
  have ok: "fst (subset_value other v st) = None"
    using v by (rule subset_value_in)
  then have step: "for_each (v # vs) (subset_value other) st = for_each vs (subset_value other) ?st1"
    by (cases "subset_value other v st") simp
  from Cons.IH [OF vs, of ?st1]
  have none: "fst (for_each vs (subset_value other) ?st1) = None"
    and ev: "evolves (snd ?st1) (snd ?st2)"
    and rest: "\<forall>w \<in> set vs. \<forall>p \<in> set other. \<not> has (moves (cell (snd ?st2) p)) w"
    by simp_all
  have "evolves (snd st) (snd ?st1)"
    by (rule subset_value_evolves)
  with ev have ev2: "evolves (snd st) (snd ?st2)"
    by (rule evolves_trans [rotated])
  have "\<not> has (moves (cell (snd ?st2) p)) v" if "p \<in> set other" for p
  proof -
    from v that have "\<not> has (moves (cell (snd ?st1) p)) v"
      by (rule subset_value_clears)
    with ev show ?thesis
      using evolves_has by blast
  qed
  with rest none ev2 show ?case
    unfolding step by auto
qed

lemma Cells_Excluding_set: "set (Cells_Excluding c other) = set c - set other"
  by (auto simp add: Cells_Excluding_def list_ex_iff prod_eq_iff)

lemma PowerSet_length: "sub \<in> set (Cells_PowerSet c) \<Longrightarrow> length sub \<le> length c"
  by (induction c arbitrary: sub) (auto simp add: Let_def intro: le_SucI)


section \<open>The subset pass as a whole\<close>

lemma for_each_ok:
  assumes "\<And>x st. fst (body x st) = None"
  shows "fst (for_each xs body st) = None"
proof (induction xs arbitrary: st)
  case Nil
  then show ?case by simp
next
  case (Cons x xs)
  obtain e st' where b: "body x st = (e, st')"
    by (cases "body x st")
  with assms [of x st] have "e = None"
    by simp
  with b Cons show ?case
    by simp
qed

lemma subset_step_ok: "fst (subset_step grp sub st) = None"
proof (cases "Moves_Slice (Cells_RemainingMoves (snd st) sub)")
  case (Inl e)
  then show ?thesis
    by (simp add: Slice_eq)
next
  case (Inr vs)
  then have "\<forall>v \<in> set vs. 1 \<le> v \<and> v \<le> 9"
    using Slice_values(2) by blast
  then have "fst (for_each vs (subset_value other) st) = None" for other
    using subset_values_clear by blast
  with Inr show ?thesis
    by (simp add: subset_step_def Let_def)
qed

lemma subset_pass_ok: "fst (subset_pass st) = None"
  unfolding subset_pass_def subset_group_def Let_def
  by (intro for_each_ok subset_step_ok)

text \<open>A subset pass that counts nothing changes nothing.\<close>

definition idle :: "nat \<Rightarrow> Sudoku \<Rightarrow> progress \<Rightarrow> bool" where
  "idle k s st \<longleftrightarrow> k \<le> fst st \<and> (fst st = k \<longrightarrow> snd st = s)"

lemma subset_value_idle:
  assumes "idle k s st"
  shows "idle k s (snd (subset_value c v st))"
proof (cases "Cells_FindMove (snd st) c v")
  case (Inl e)
  with assms show ?thesis
    by (simp add: subset_value_def)
next
  case (Inr excludable)
  show ?thesis
  proof (cases "excludable = []")
    case True
    with Inr assms show ?thesis
      by (simp add: subset_value_def)
  next
    case False
    then obtain p where "p \<in> set excludable"
      by (cases excludable) auto
    with Inr have "Cell_CanPlay (cell (snd st) p) v = Inr True"
      by (rule Cells_FindMove_can_play)
    then have "1 \<le> v" "v \<le> 9"
      using Cell_CanPlay_True by blast+
    then obtain n s' where "Cells_EliminateMove (snd st) excludable v = (Inr n, s')"
      using Cells_EliminateMove_in by blast
    with Inr False assms show ?thesis
      by (simp add: subset_value_def idle_def)
  qed
qed

lemma subset_pass_idle:
  assumes "subset_pass (k, s) = (e, (k, s'))"
  shows "s' = s"
proof -
  have step: "idle k s (snd (subset_step grp sub st))" if "idle k s st" for grp sub st
  proof (cases "Moves_Slice (Cells_RemainingMoves (snd st) sub)")
    case (Inl err)
    with that show ?thesis
      by (simp add: subset_step_def)
  next
    case (Inr vs)
    have "idle k s (snd (for_each vs (subset_value c) st))" for c
      by (rule for_each_keeps [where Q = "idle k s"]) (simp_all add: that subset_value_idle)
    with Inr that show ?thesis
      by (simp add: subset_step_def Let_def)
  qed
  have grp: "idle k s (snd (subset_group g st))" if "idle k s st" for g st
    unfolding subset_group_def Let_def
    by (rule for_each_keeps [where Q = "idle k s"]) (simp_all add: that step)
  have "idle k s (snd (subset_pass (k, s)))"
    unfolding subset_pass_def
  proof (rule for_each_keeps [where Q = "idle k s"])
    show "idle k s (k, s)"
      by (simp add: idle_def)
  qed (rule grp)
  with assms show ?thesis
    by (simp add: idle_def)
qed


section \<open>The effect of the subset pass\<close>

lemma clear_absent: "\<not> has (moves c) v \<Longrightarrow> clear v c = c"
  by (simp add: clear_def and_not_digit_bit_id)

definition strike :: "int list \<Rightarrow> Cell \<Rightarrow> Cell" where
  "strike vs c = fold clear vs c"

lemma val_strike: "val (strike vs c) = val c"
  unfolding strike_def by (induction vs arbitrary: c) simp_all

lemma has_strike:
  "\<forall>v \<in> set vs. 1 \<le> v \<and> v \<le> 9 \<Longrightarrow> 1 \<le> w \<Longrightarrow>
   has (moves (strike vs c)) w \<longleftrightarrow> has (moves c) w \<and> w \<notin> set vs"
  unfolding strike_def by (induction vs arbitrary: c) (auto simp add: has_clear)

lemma subset_value_cell:
  assumes "1 \<le> v" "v \<le> 9"
  shows "cell (snd (snd (subset_value other v st))) q =
           (if norm q \<in> norm ` set other then clear v (cell (snd st) q) else cell (snd st) q)"
proof -
  let ?ex = "filter (\<lambda>p. has (moves (cell (snd st) p)) v) other"
  have c: "cell (snd (snd (subset_value other v st))) q =
             (if norm q \<in> norm ` set ?ex then clear v (cell (snd st) q) else cell (snd st) q)"
    using assms by (simp add: subset_value_in Cells_EliminateMove_cell)
  show ?thesis
  proof (cases "norm q \<in> norm ` set ?ex")
    case True
    then have "norm q \<in> norm ` set other"
      by auto
    with True c show ?thesis
      by simp
  next
    case False
    show ?thesis
    proof (cases "norm q \<in> norm ` set other")
      case True
      then obtain p where p: "p \<in> set other" "norm q = norm p"
        by blast
      with False have "p \<notin> set ?ex"
        by force
      with p(1) have "\<not> has (moves (cell (snd st) p)) v"
        by simp
      moreover have "cell (snd st) q = cell (snd st) p"
        using p(2) by (rule cell_norm_cong)
      ultimately have "clear v (cell (snd st) q) = cell (snd st) q"
        by (simp add: clear_absent)
      with False True c show ?thesis
        by simp
    next
      case n: False
      with False c show ?thesis
        by simp
    qed
  qed
qed

lemma subset_values_cell:
  assumes "\<forall>v \<in> set vs. 1 \<le> v \<and> v \<le> 9"
  shows "cell (snd (snd (for_each vs (subset_value other) st))) q =
           (if norm q \<in> norm ` set other then strike vs (cell (snd st) q) else cell (snd st) q)"
  using assms
proof (induction vs arbitrary: st)
  case Nil
  then show ?case
    by (simp add: strike_def)
next
  case (Cons v vs)
  let ?st1 = "snd (subset_value other v st)"
  from Cons.prems have v: "1 \<le> v" "v \<le> 9" and vs: "\<forall>w \<in> set vs. 1 \<le> w \<and> w \<le> 9"
    by simp_all
  have ok: "fst (subset_value other v st) = None"
    using v by (rule subset_value_in)
  then have step: "for_each (v # vs) (subset_value other) st = for_each vs (subset_value other) ?st1"
    by (cases "subset_value other v st") simp
  show ?case
    unfolding step Cons.IH [OF vs] subset_value_cell [OF v]
    by (simp add: strike_def)
qed

text \<open>The two ways a subset step can go.\<close>

lemma subset_step_skips:
  assumes "length sub < 2 \<or> length sub = length grp \<or>
           length (filter (has (Cells_RemainingMoves (snd st) sub)) [1..9]) \<noteq> length sub"
  shows "subset_step grp sub st = (None, st)"
  using assms by (auto simp add: subset_step_def Slice_eq Let_def)

lemma subset_step_fires:
  assumes "2 \<le> length sub" "length sub \<noteq> length grp"
    and "Moves_Slice (Cells_RemainingMoves (snd st) sub) = Inr vs" "length vs = length sub"
  shows "cell (snd (snd (subset_step grp sub st))) q =
           (if norm q \<in> norm ` set (Cells_Excluding grp sub)
            then strike vs (cell (snd st) q) else cell (snd st) q)"
proof -
  have range: "\<forall>v \<in> set vs. 1 \<le> v \<and> v \<le> 9"
    using Slice_values(2) [OF assms(3)] by blast
  from assms have "subset_step grp sub st = for_each vs (subset_value (Cells_Excluding grp sub)) st"
    by (simp add: subset_step_def Let_def)
  then show ?thesis
    by (simp add: subset_values_cell [OF range])
qed

text \<open>Loops that never fail visit every element of their list.\<close>

lemma for_each_split:
  assumes "\<And>x st. fst (body x st) = None"
  shows "for_each (ys @ x # zs) body st =
           for_each zs body (snd (body x (snd (for_each ys body st))))"
proof (induction ys arbitrary: st)
  case Nil
  obtain e st' where b: "body x st = (e, st')"
    by (cases "body x st")
  with assms [of x st] show ?case
    by simp
next
  case (Cons y ys)
  obtain e st' where b: "body y st = (e, st')"
    by (cases "body y st")
  with assms [of y st] have "e = None"
    by simp
  with b Cons show ?case
    by simp
qed

lemma PowerSet_subseqs: "set (Cells_PowerSet c) = set (subseqs c)"
  by (induction c) (auto simp add: Let_def)

lemma subset_group_ok: "fst (subset_group g st) = None"
  unfolding subset_group_def Let_def by (intro for_each_ok subset_step_ok)

subsection \<open>Candidate sets that only shrink\<close>

definition shrinks :: "Sudoku \<Rightarrow> Sudoku \<Rightarrow> bool" where
  "shrinks s s' \<longleftrightarrow>
     (\<forall>p. val (cell s' p) = val (cell s p) \<and>
          (\<forall>w. has (moves (cell s' p)) w \<longrightarrow> has (moves (cell s p)) w))"

lemma shrinks_refl: "shrinks s s"
  by (simp add: shrinks_def)

lemma shrinks_trans: "shrinks s s' \<Longrightarrow> shrinks s' s'' \<Longrightarrow> shrinks s s''"
  by (simp add: shrinks_def)

lemma shrinks_UnsetOnly:
  assumes "shrinks s s'"
  shows "Cells_UnsetOnly s' g = Cells_UnsetOnly s g"
proof -
  from assms have "val (cell s' p) = val (cell s p)" for p
    unfolding shrinks_def by blast
  then show ?thesis
    by (simp add: Cells_UnsetOnly_def)
qed

lemma Cells_EliminateMove_shrinks: "shrinks s (snd (Cells_EliminateMove s c v))"
  unfolding shrinks_def using Cells_EliminateMove_val Cells_EliminateMove_has by blast

lemma subset_value_shrinks: "shrinks (snd st) (snd (snd (subset_value other v st)))"
  using subset_value_board [of other v st] Cells_EliminateMove_shrinks [of "snd st"]
  by (auto simp add: shrinks_refl)

lemma for_each_shrinks:
  assumes "\<And>x st. shrinks (snd st) (snd (snd (body x st)))"
  shows "shrinks (snd st) (snd (snd (for_each xs body st)))"
proof (rule for_each_keeps [where Q = "\<lambda>st'. shrinks (snd st) (snd st')"])
  show "shrinks (snd st) (snd (snd (body x st')))" if "shrinks (snd st) (snd st')" for x st'
    using that assms [of st' x] by (rule shrinks_trans)
  show "shrinks (snd st) (snd st)"
    by (rule shrinks_refl)
qed

lemma subset_step_shrinks: "shrinks (snd st) (snd (snd (subset_step grp sub st)))"
proof (cases "Moves_Slice (Cells_RemainingMoves (snd st) sub)")
  case (Inl e)
  then show ?thesis
    by (simp add: Slice_eq)
next
  case (Inr vs)
  have "shrinks (snd st) (snd (snd (for_each vs (subset_value other) st)))" for other
    by (rule for_each_shrinks) (rule subset_value_shrinks)
  with Inr show ?thesis
    by (simp add: subset_step_def Let_def shrinks_refl)
qed

lemma subset_group_shrinks: "shrinks (snd st) (snd (snd (subset_group g st)))"
  unfolding subset_group_def Let_def by (rule for_each_shrinks) (rule subset_step_shrinks)

subsection \<open>What one subset does\<close>

lemma Groups_cases:
  assumes "g \<in> set Groups"
  obtains r where "0 \<le> r" "r \<le> 8" "g = Row r"
    | c where "0 \<le> c" "c \<le> 8" "g = Col c"
    | i j where "0 \<le> i" "i \<le> 2" "0 \<le> j" "j \<le> 2" "g = Square i j"
  using assms unfolding Groups_def Rows_def Cols_def Squares_def by auto

lemma Groups_in_grid:
  assumes "g \<in> set Groups" "p \<in> set g"
  shows "p \<in> set Cells"
  using assms(1)
proof (cases rule: Groups_cases)
  case (1 r)
  with assms(2) show ?thesis
    by (simp add: set_Row set_Cells)
next
  case (2 c)
  with assms(2) show ?thesis
    by (simp add: set_Col set_Cells)
next
  case (3 i j)
  with assms(2) have "fst p div 3 = i" "snd p div 3 = j"
    by (simp_all add: set_Square)
  with 3 show ?thesis
    unfolding set_Cells by auto
qed

lemma UnsetOnly_subset: "set (Cells_UnsetOnly s g) \<subseteq> set g"
  by (auto simp add: Cells_UnsetOnly_def)

lemma Range_product: "Range a b c d = List.product [a..c] [b..d]"
  by (simp add: Range_def product_concat_map)

lemma distinct_Range: "distinct (Range a b c d)"
  unfolding Range_product by (rule distinct_product) simp_all

lemma Groups_distinct:
  assumes "g \<in> set Groups"
  shows "distinct g"
  using assms by (cases rule: Groups_cases) (simp_all add: Row_def Col_def Square_def distinct_Range)

lemma UnsetOnly_distinct: "g \<in> set Groups \<Longrightarrow> distinct (Cells_UnsetOnly s g)"
  by (simp add: Cells_UnsetOnly_def Groups_distinct)

text \<open>
  \<open>qualifies t grp sub vs\<close>: \<open>sub\<close> is a sublist of \<open>grp\<close> of at least two and at most
  \<open>|grp| - 1\<close> cells whose candidates on the board \<open>t\<close> are together the values \<open>vs\<close>,
  as many as \<open>sub\<close> has cells.
\<close>

definition qualifies :: "Sudoku \<Rightarrow> CellRef list \<Rightarrow> CellRef list \<Rightarrow> int list \<Rightarrow> bool" where
  "qualifies t grp sub vs \<longleftrightarrow>
     sub \<in> set (subseqs grp) \<and> 2 \<le> length sub \<and> length sub \<le> length grp - 1 \<and>
     Moves_Slice (Cells_RemainingMoves t sub) = Inr vs \<and> length vs = length sub"

text \<open>
  \<open>excluded t grp sub vs t'\<close>: the board \<open>t'\<close> is \<open>t\<close> with the values \<open>vs\<close> taken from
  the candidates of the cells of \<open>grp\<close> outside \<open>sub\<close>, and with every other cell of
  the grid, those of \<open>sub\<close> among them, as it was.
\<close>

definition excluded :: "Sudoku \<Rightarrow> CellRef list \<Rightarrow> CellRef list \<Rightarrow> int list \<Rightarrow> Sudoku \<Rightarrow> bool" where
  "excluded t grp sub vs t' \<longleftrightarrow>
     (\<forall>p \<in> set Cells.
        if p \<in> set grp \<and> p \<notin> set sub
        then val (cell t' p) = val (cell t p) \<and>
             (\<forall>v. Moves_Contains (moves (cell t' p)) v = Inr True \<longleftrightarrow>
                    Moves_Contains (moves (cell t p)) v = Inr True \<and> v \<notin> set vs)
        else cell t' p = cell t p)"

text \<open>One qualifying subset of the unset cells of one group, and its exclusion.\<close>

definition trigger :: "Sudoku \<Rightarrow> Sudoku \<Rightarrow> bool" where
  "trigger t t' \<longleftrightarrow>
     (\<exists>g \<in> set Groups. \<exists>sub vs.
        qualifies t (Cells_UnsetOnly t g) sub vs \<and> excluded t (Cells_UnsetOnly t g) sub vs t')"

lemma Contains_True: "Moves_Contains m v = Inr True \<longleftrightarrow> 1 \<le> v \<and> v \<le> 9 \<and> has m v"
proof (cases "1 \<le> v \<and> v \<le> 9")
  case True
  then show ?thesis
    by (simp add: Contains_in)
next
  case False
  then have "v < 1 \<or> v > 9"
    by linarith
  then have "Moves_Contains m v = Inl (PanicValueOutOfRange v)"
    by (rule Contains_out)
  then have "Moves_Contains m v \<noteq> Inr True"
    by simp
  with False show ?thesis
    by blast
qed

lemma subset_step_excluded:
  assumes grid: "set grp \<subseteq> set Cells"
    and q: "qualifies (snd st) grp sub vs"
  shows "excluded (snd st) grp sub vs (snd (snd (subset_step grp sub st)))"
proof -
  let ?t' = "snd (snd (subset_step grp sub st))"
  let ?other = "Cells_Excluding grp sub"
  from q have sub: "sub \<in> set (subseqs grp)" and two: "2 \<le> length sub"
    and less: "length sub \<le> length grp - 1"
    and vs: "Moves_Slice (Cells_RemainingMoves (snd st) sub) = Inr vs" "length vs = length sub"
    by (simp_all add: qualifies_def)
  from two less have ne: "length sub \<noteq> length grp"
    by linarith
  have range: "\<forall>v \<in> set vs. 1 \<le> v \<and> v \<le> 9"
    using Slice_values(2) [OF vs(1)] by blast
  have c: "cell ?t' p = (if norm p \<in> norm ` set ?other
                         then strike vs (cell (snd st) p) else cell (snd st) p)" for p
    using two ne vs by (rule subset_step_fires)
  have mem: "norm p \<in> norm ` set ?other \<longleftrightarrow> p \<in> set grp \<and> p \<notin> set sub" if "p \<in> set Cells" for p
  proof
    assume "norm p \<in> norm ` set ?other"
    then obtain p' where p': "p' \<in> set ?other" "norm p = norm p'"
      by blast
    then have "p' \<in> set grp" "p' \<notin> set sub"
      by (simp_all add: Cells_Excluding_set)
    moreover from this grid have "norm p' = p'"
      by (auto intro: norm_in_grid)
    moreover from that have "norm p = p"
      by (rule norm_in_grid)
    ultimately show "p \<in> set grp \<and> p \<notin> set sub"
      using p'(2) by simp
  next
    assume "p \<in> set grp \<and> p \<notin> set sub"
    then have "p \<in> set ?other"
      by (simp add: Cells_Excluding_set)
    then show "norm p \<in> norm ` set ?other"
      by blast
  qed
  show ?thesis
    unfolding excluded_def
  proof
    fix p
    assume p: "p \<in> set Cells"
    show "if p \<in> set grp \<and> p \<notin> set sub
          then val (cell ?t' p) = val (cell (snd st) p) \<and>
               (\<forall>v. Moves_Contains (moves (cell ?t' p)) v = Inr True \<longleftrightarrow>
                      Moves_Contains (moves (cell (snd st) p)) v = Inr True \<and> v \<notin> set vs)
          else cell ?t' p = cell (snd st) p"
    proof (cases "p \<in> set grp \<and> p \<notin> set sub")
      case True
      with mem [OF p] c [of p] have eq: "cell ?t' p = strike vs (cell (snd st) p)"
        by simp
      have "Moves_Contains (moves (strike vs (cell (snd st) p))) v = Inr True \<longleftrightarrow>
              Moves_Contains (moves (cell (snd st) p)) v = Inr True \<and> v \<notin> set vs" for v
        using has_strike [OF range, of v "cell (snd st) p"] by (auto simp add: Contains_True)
      with True show ?thesis
        unfolding eq by (simp add: val_strike)
    next
      case False
      with mem [OF p] c [of p] have "cell ?t' p = cell (snd st) p"
        by simp
      with False show ?thesis
        by (simp only: if_False)
    qed
  qed
qed

lemma subset_step_unqualified:
  assumes "sub \<in> set (subseqs grp)" and "\<not> (\<exists>vs. qualifies (snd st) grp sub vs)"
  shows "subset_step grp sub st = (None, st)"
proof (rule subset_step_skips)
  let ?vs = "filter (has (Cells_RemainingMoves (snd st) sub)) [1..9]"
  from assms(1) have le: "length sub \<le> length grp"
    by (simp add: PowerSet_length PowerSet_subseqs)
  from assms have "\<not> (2 \<le> length sub \<and> length sub \<le> length grp - 1 \<and> length ?vs = length sub)"
    by (simp add: qualifies_def Slice_eq)
  with le show "length sub < 2 \<or> length sub = length grp \<or> length ?vs \<noteq> length sub"
    by linarith
qed

lemma subset_step_trigger:
  assumes "g \<in> set Groups" and "sub \<in> set (subseqs (Cells_UnsetOnly (snd st) g))"
  shows "snd (snd (subset_step (Cells_UnsetOnly (snd st) g) sub st)) = snd st \<or>
         trigger (snd st) (snd (snd (subset_step (Cells_UnsetOnly (snd st) g) sub st)))"
proof (cases "\<exists>vs. qualifies (snd st) (Cells_UnsetOnly (snd st) g) sub vs")
  case True
  then obtain vs where q: "qualifies (snd st) (Cells_UnsetOnly (snd st) g) sub vs"
    by blast
  have "set (Cells_UnsetOnly (snd st) g) \<subseteq> set Cells"
    using UnsetOnly_subset [of "snd st" g] Groups_in_grid [OF assms(1)] by blast
  then have "excluded (snd st) (Cells_UnsetOnly (snd st) g) sub vs
               (snd (snd (subset_step (Cells_UnsetOnly (snd st) g) sub st)))"
    using q by (rule subset_step_excluded)
  with q assms(1) show ?thesis
    unfolding trigger_def by blast
next
  case False
  with assms(2) have "subset_step (Cells_UnsetOnly (snd st) g) sub st = (None, st)"
    by (rule subset_step_unqualified)
  then show ?thesis
    by simp
qed

subsection \<open>The pass\<close>

lemma subset_group_triggers:
  assumes g: "g \<in> set Groups"
    and inv: "shrinks s (snd st) \<and> trigger\<^sup>*\<^sup>* s (snd st)"
  shows "shrinks s (snd (snd (subset_group g st))) \<and> trigger\<^sup>*\<^sup>* s (snd (snd (subset_group g st)))"
proof -
  let ?grp = "Cells_UnsetOnly s g"
  from inv have grp: "Cells_UnsetOnly (snd st) g = ?grp"
    by (simp add: shrinks_UnsetOnly)
  have "shrinks s (snd (snd (for_each (Cells_PowerSet ?grp) (subset_step ?grp) st))) \<and>
        trigger\<^sup>*\<^sup>* s (snd (snd (for_each (Cells_PowerSet ?grp) (subset_step ?grp) st)))"
  proof (rule for_each_keeps [where Q = "\<lambda>st'. shrinks s (snd st') \<and> trigger\<^sup>*\<^sup>* s (snd st')"])
    fix sub and st' :: progress
    assume sub: "sub \<in> set (Cells_PowerSet ?grp)"
      and q: "shrinks s (snd st') \<and> trigger\<^sup>*\<^sup>* s (snd st')"
    let ?t' = "snd (snd (subset_step ?grp sub st'))"
    from q have same: "Cells_UnsetOnly (snd st') g = ?grp"
      by (simp add: shrinks_UnsetOnly)
    from sub have "sub \<in> set (subseqs (Cells_UnsetOnly (snd st') g))"
      by (simp add: same PowerSet_subseqs)
    with g have "?t' = snd st' \<or> trigger (snd st') ?t'"
      using subset_step_trigger [of g sub st'] by (simp add: same)
    with q have "trigger\<^sup>*\<^sup>* s ?t'"
      by auto
    moreover have "shrinks s ?t'"
      using q subset_step_shrinks [of st' ?grp sub] shrinks_trans by blast
    ultimately show "shrinks s ?t' \<and> trigger\<^sup>*\<^sup>* s ?t'"
      by simp
  next
    show "shrinks s (snd st) \<and> trigger\<^sup>*\<^sup>* s (snd st)"
      by (rule inv)
  qed
  then show ?thesis
    by (simp add: subset_group_def Let_def grp)
qed

lemma subset_pass_triggers:
  "shrinks s (snd (snd (subset_pass (n, s)))) \<and> trigger\<^sup>*\<^sup>* s (snd (snd (subset_pass (n, s))))"
  unfolding subset_pass_def
proof (rule for_each_keeps [where Q = "\<lambda>st'. shrinks s (snd st') \<and> trigger\<^sup>*\<^sup>* s (snd st')"])
  show "shrinks s (snd (snd (subset_group g st'))) \<and> trigger\<^sup>*\<^sup>* s (snd (snd (subset_group g st')))"
    if "g \<in> set Groups" "shrinks s (snd st') \<and> trigger\<^sup>*\<^sup>* s (snd st')" for g st'
    using that by (rule subset_group_triggers)
  show "shrinks s (snd (n, s)) \<and> trigger\<^sup>*\<^sup>* s (snd (n, s))"
    by (simp add: shrinks_refl)
qed

text \<open>
  Every sublist of the unset cells of every group gets its step: on some board
  \<open>snd st\<close> between the one the pass started from and the one it leaves.
\<close>

lemma subset_pass_visits:
  assumes g: "g \<in> set Groups" and sub: "sub \<in> set (subseqs (Cells_UnsetOnly s g))"
  shows "\<exists>st. shrinks s (snd st) \<and>
              shrinks (snd (snd (subset_step (Cells_UnsetOnly s g) sub st)))
                (snd (snd (subset_pass (n, s))))"
proof -
  let ?grp = "Cells_UnsetOnly s g"
  from g obtain gs1 gs2 where gs: "Groups = gs1 @ g # gs2"
    by (auto dest: split_list)
  let ?st1 = "snd (for_each gs1 subset_group (n, s))"
  let ?st4 = "snd (subset_group g ?st1)"
  have pass: "subset_pass (n, s) = for_each gs2 subset_group ?st4"
    unfolding subset_pass_def gs by (rule for_each_split) (rule subset_group_ok)
  have s1: "shrinks s (snd ?st1)"
    using for_each_shrinks [of subset_group "(n, s)" gs1] subset_group_shrinks by simp
  then have grp: "Cells_UnsetOnly (snd ?st1) g = ?grp"
    by (rule shrinks_UnsetOnly)
  from sub obtain ss1 ss2 where ss: "Cells_PowerSet ?grp = ss1 @ sub # ss2"
    unfolding PowerSet_subseqs [symmetric] by (auto dest: split_list)
  let ?st2 = "snd (for_each ss1 (subset_step ?grp) ?st1)"
  let ?st3 = "snd (subset_step ?grp sub ?st2)"
  have "subset_group g ?st1 = for_each (ss1 @ sub # ss2) (subset_step ?grp) ?st1"
    by (simp add: subset_group_def Let_def grp ss)
  also have "\<dots> = for_each ss2 (subset_step ?grp) ?st3"
    by (rule for_each_split) (rule subset_step_ok)
  finally have group: "subset_group g ?st1 = for_each ss2 (subset_step ?grp) ?st3" .
  have "shrinks (snd ?st1) (snd ?st2)"
    by (rule for_each_shrinks) (rule subset_step_shrinks)
  with s1 have s2: "shrinks s (snd ?st2)"
    by (rule shrinks_trans)
  have "shrinks (snd ?st3) (snd ?st4)"
    unfolding group by (rule for_each_shrinks) (rule subset_step_shrinks)
  moreover have "shrinks (snd ?st4) (snd (snd (subset_pass (n, s))))"
    unfolding pass by (rule for_each_shrinks) (rule subset_group_shrinks)
  ultimately have "shrinks (snd ?st3) (snd (snd (subset_pass (n, s))))"
    by (rule shrinks_trans)
  with s2 show ?thesis
    by blast
qed

lemma qualifies_between:
  assumes "shrinks s t" "shrinks t s'" and same: "\<forall>p \<in> set sub. cell s' p = cell s p"
    and q: "qualifies s grp sub vs"
  shows "qualifies t grp sub vs"
proof -
  have "has (moves (cell t p)) w \<longleftrightarrow> has (moves (cell s p)) w" if "p \<in> set sub" for p w
    using assms(1,2) same that unfolding shrinks_def by metis
  then have "has (Cells_RemainingMoves t sub) w \<longleftrightarrow> has (Cells_RemainingMoves s sub) w" for w
    by (simp add: has_RemainingMoves)
  then have "has (Cells_RemainingMoves t sub) = has (Cells_RemainingMoves s sub)"
    by (intro ext)
  then have "Moves_Slice (Cells_RemainingMoves t sub) = Moves_Slice (Cells_RemainingMoves s sub)"
    by (simp add: Slice_eq)
  with q show ?thesis
    by (simp add: qualifies_def)
qed


section \<open>How long Solve runs and what it returns\<close>

subsection \<open>The number of calls\<close>








subsection \<open>No two cells of a group hold the same value\<close>















subsection \<open>The clues stay\<close>




subsection \<open>A success is a solution\<close>







section \<open>Equations for evaluation\<close>

text \<open>
  \<^verbatim>\<open>Slice\<close> and \<^verbatim>\<open>FindMove\<close> as filters: the same values, computed without the nested
  case distinctions of the loops, for the evaluation of concrete boards.
\<close>

lemma Moves_Slice_code [code]: "Moves_Slice m = Inr (filter (has m) [1..9])"
  by (rule Slice_eq)

lemma Cells_FindMove_code [code]:
  "Cells_FindMove s c v =
     (if v < 1 \<or> v > 9 then (if c = [] then Inr [] else Inl (PanicValueOutOfRange v))
      else Inr (filter (\<lambda>p. has (moves (cell s p)) v) c))"
proof (cases "v < 1 \<or> v > 9")
  case True
  then show ?thesis
    by (cases c) (auto simp add: Cell_CanPlay_def Contains_out)
next
  case False
  then show ?thesis
    by (simp add: Cells_FindMove_in)
qed

section \<open>The claims\<close>

text \<open>Boards are written cell by cell with these two abbreviations.\<close>

definition free_cell :: "Moves \<Rightarrow> Cell" where
  "free_cell m = \<lparr>val = 0, moves = m\<rparr>"

definition given_cell :: "int \<Rightarrow> Cell" where
  "given_cell v = \<lparr>val = v, moves = empty_moves\<rparr>"

subsection \<open>C9: values outside 1..9\<close>

text \<open>
  C9. Every candidate-set operation called with a value outside 1..9 fails loudly:
  for every \<open>v\<close> with \<open>v < 1\<close> or \<open>v > 9\<close>, \<^verbatim>\<open>Moves.Contains\<close>, \<^verbatim>\<open>Moves.Add\<close> and
  \<^verbatim>\<open>Moves.Remove\<close> panic with the out-of-range value, so does \<^verbatim>\<open>Cell.EliminateMove\<close>, and
  \<^verbatim>\<open>Cell.Set\<close> returns its out-of-range error and leaves the cell as it was.
\<close>

theorem C9_out_of_range_is_loud:
  assumes "v < 1 \<or> v > 9"
  shows "Moves_Contains m v = Inl (PanicValueOutOfRange v) \<and>
         Moves_Add m v = Inl (PanicValueOutOfRange v) \<and>
         Moves_Remove m v = Inl (PanicValueOutOfRange v) \<and>
         Cell_EliminateMove c v = Inl (PanicValueOutOfRange v) \<and>
         Cell_Set c v = (Some CellValueOutOfRange, c)"
  using assms
  by (auto simp add: Contains_out Moves_Add_def Moves_Remove_def Cell_EliminateMove_def Cell_Set_def)

theorem C9_out_of_range_is_loud_witness:
  "(0::int) < 1 \<and>
   Moves_Contains full_moves 0 = Inl (PanicValueOutOfRange 0) \<and>
   Moves_Add full_moves 0 = Inl (PanicValueOutOfRange 0) \<and>
   Moves_Remove full_moves 0 = Inl (PanicValueOutOfRange 0) \<and>
   Cell_EliminateMove \<lparr>val = 0, moves = full_moves\<rparr> 0 = Inl (PanicValueOutOfRange 0) \<and>
   Cell_Set \<lparr>val = 0, moves = full_moves\<rparr> 0 = (Some CellValueOutOfRange, \<lparr>val = 0, moves = full_moves\<rparr>) \<and>
   (10::int) > 9 \<and>
   Moves_Contains empty_moves 10 = Inl (PanicValueOutOfRange 10) \<and>
   Moves_Add empty_moves 10 = Inl (PanicValueOutOfRange 10) \<and>
   Moves_Remove empty_moves 10 = Inl (PanicValueOutOfRange 10)"
  using C9_out_of_range_is_loud [of 0 full_moves "\<lparr>val = 0, moves = full_moves\<rparr>"]
    C9_out_of_range_is_loud [of 10 empty_moves "\<lparr>val = 0, moves = full_moves\<rparr>"]
  by simp

subsection \<open>C10: which errors of PlayMove leave the board as it was\<close>

text \<open>
  C10. PlayMove is atomic for its validation errors only. When it returns an
  out-of-bounds, already-assigned, group-conflict or illegal-move error, the board is
  unchanged. When it returns the error of the closing scan (``No moves left''), the
  target cell holds the value, its candidate set is empty, the value is gone from the
  candidate sets of the cells of its row, column and square, and the board differs from
  the one PlayMove was called on: the assignment stays.
\<close>

theorem C10_PlayMove_atomicity:
  assumes "PlayMove row col v s = (Some e, s')"
  shows "(e \<in> {RowOutOfBounds, ColOutOfBounds, ValueOutOfBounds, CellAlreadyContains,
               RowAlreadyContains, ColAlreadyContains, SquareAlreadyContains, NotAValidSpot}
            \<longrightarrow> s' = s) \<and>
         ((\<exists>r c. e = NoMovesLeft r c) \<longrightarrow>
            val (cell s' (row, col)) = v \<and> moves (cell s' (row, col)) = empty_moves \<and>
            (\<forall>p \<in> set (Row row @ Col col @ Square (row div 3) (col div 3)).
               Moves_Contains (moves (cell s' p)) v = Inr False) \<and>
            s' \<noteq> s)"
proof (cases "validate row col v s")
  case (Some e')
  with assms have "e = e'" "s' = s"
    by (simp_all add: PlayMove_eq)
  moreover from Some have "\<not> (\<exists>r c. e' = NoMovesLeft r c)"
    using validate_kinds [OF Some] by auto
  ultimately show ?thesis
    by simp
next
  case None
  then have valid: "valid_move row col v s"
    by (simp add: validate_None)
  then have v: "1 \<le> v" "v \<le> 9" and unset: "val (cell s (row, col)) = 0"
    by (simp_all add: valid_move_def)
  from assms None have s': "s' = played row col v s"
    and scan: "scan_no_moves (played row col v s) (Range 0 0 8 8) = Some e"
    by (auto simp add: PlayMove_eq)
  from scan obtain p where "e = NoMovesLeft (fst p + 1) (snd p + 1)"
    using scan_no_moves_Some by blast
  then have kind: "e \<notin> {RowOutOfBounds, ColOutOfBounds, ValueOutOfBounds, CellAlreadyContains,
               RowAlreadyContains, ColAlreadyContains, SquareAlreadyContains, NotAValidSpot}"
    by simp
  have target: "cell s' (row, col) = \<lparr>val = v, moves = empty_moves\<rparr>"
    unfolding s' using v by (rule played_target)
  have "Moves_Contains (moves (cell s' p)) v = Inr False"
    if "p \<in> set (Row row @ Col col @ Square (row div 3) (col div 3))" for p
  proof -
    from that have "p \<in> set (peers row col)"
      by (simp add: peers_def)
    then have "\<not> has (moves (cell s' p)) v"
      unfolding s' using v by (intro played_peers)
    with v show ?thesis
      by (simp add: Contains_in)
  qed
  moreover have "s' \<noteq> s"
    using target unset v by auto
  ultimately show ?thesis
    using kind target by simp
qed


definition blocked_grid :: Sudoku where
  "blocked_grid = Arr9
     (Arr9 (free_cell 256) (free_cell 256) (given_cell 1) (given_cell 2) (given_cell 3) (given_cell 4) (given_cell 5) (given_cell 6) (given_cell 7))
     (Arr9 (given_cell 8) (free_cell 382) (free_cell 382) (free_cell 369) (free_cell 369) (free_cell 369) (free_cell 271) (free_cell 271) (free_cell 271))
     (Arr9 (free_cell 382) (free_cell 382) (free_cell 382) (free_cell 497) (free_cell 497) (free_cell 497) (free_cell 399) (free_cell 399) (free_cell 399))
     (Arr9 (free_cell 383) (free_cell 511) (free_cell 510) (free_cell 509) (free_cell 507) (free_cell 503) (free_cell 495) (free_cell 479) (free_cell 447))
     (Arr9 (free_cell 383) (free_cell 511) (free_cell 510) (free_cell 509) (free_cell 507) (free_cell 503) (free_cell 495) (free_cell 479) (free_cell 447))
     (Arr9 (free_cell 383) (free_cell 511) (free_cell 510) (free_cell 509) (free_cell 507) (free_cell 503) (free_cell 495) (free_cell 479) (free_cell 447))
     (Arr9 (free_cell 383) (free_cell 511) (free_cell 510) (free_cell 509) (free_cell 507) (free_cell 503) (free_cell 495) (free_cell 479) (free_cell 447))
     (Arr9 (free_cell 383) (free_cell 511) (free_cell 510) (free_cell 509) (free_cell 507) (free_cell 503) (free_cell 495) (free_cell 479) (free_cell 447))
     (Arr9 (free_cell 383) (free_cell 511) (free_cell 510) (free_cell 509) (free_cell 507) (free_cell 503) (free_cell 495) (free_cell 479) (free_cell 447))"


theorem C10_PlayMove_atomicity_witness:
  "PlayMove 0 0 9 blocked_grid = (Some (NoMovesLeft 1 2), snd (PlayMove 0 0 9 blocked_grid)) \<and>
   val (cell (snd (PlayMove 0 0 9 blocked_grid)) (0, 0)) = 9 \<and>
   moves (cell (snd (PlayMove 0 0 9 blocked_grid)) (0, 0)) = empty_moves \<and>
   Moves_Contains (moves (cell (snd (PlayMove 0 0 9 blocked_grid)) (0, 1))) 9 = Inr False \<and>
   snd (PlayMove 0 0 9 blocked_grid) \<noteq> blocked_grid \<and>
   PlayMove 0 2 9 blocked_grid = (Some CellAlreadyContains, snd (PlayMove 0 2 9 blocked_grid)) \<and>
   snd (PlayMove 0 2 9 blocked_grid) = blocked_grid"
proof -
  have "fst (PlayMove 0 0 9 blocked_grid) = Some (NoMovesLeft 1 2)"
    by code_simp
  then have a: "PlayMove 0 0 9 blocked_grid = (Some (NoMovesLeft 1 2), snd (PlayMove 0 0 9 blocked_grid))"
    by (metis prod.collapse)
  have "fst (PlayMove 0 2 9 blocked_grid) = Some CellAlreadyContains"
    by code_simp
  then have b: "PlayMove 0 2 9 blocked_grid = (Some CellAlreadyContains, snd (PlayMove 0 2 9 blocked_grid))"
    by (metis prod.collapse)
  have m: "(0, 1) \<in> set (Row 0 @ Col 0 @ Square (0 div 3) (0 div 3))"
    by code_simp
  from C10_PlayMove_atomicity [OF a] C10_PlayMove_atomicity [OF b] m a b show ?thesis
    by auto
qed

subsection \<open>C3: the closing scan of PlayMove\<close>

text \<open>
  C3. Take a PlayMove whose checks all pass (\<open>valid_move\<close>), so that the assignment is
  made: the board it leaves is \<open>played\<close>, the board after \<^verbatim>\<open>Set\<close> and the elimination of
  the value from the row, the column and the square of the cell. If some unset cell of
  that board has an empty candidate set, PlayMove returns the ``No moves left'' error,
  naming such a cell; if every unset cell has a candidate left, PlayMove returns no error.
\<close>

theorem C3_contradiction_scan:
  assumes "valid_move row col v s" and "PlayMove row col v s = (e, s')"
  shows "s' = played row col v s \<and>
         ((\<exists>p \<in> set Cells. val (cell s' p) = 0 \<and> moves (cell s' p) = empty_moves)
            \<longrightarrow> (\<exists>p \<in> set Cells. e = Some (NoMovesLeft (fst p + 1) (snd p + 1)) \<and>
                   val (cell s' p) = 0 \<and> moves (cell s' p) = empty_moves)) \<and>
         ((\<forall>p \<in> set Cells. \<not> (val (cell s' p) = 0 \<and> moves (cell s' p) = empty_moves))
            \<longrightarrow> e = None)"
proof -
  from assms have s': "s' = played row col v s" and e: "e = scan_no_moves s' Cells"
    by (auto simp add: PlayMove_valid Cells_def)
  have "\<exists>p \<in> set Cells. e = Some (NoMovesLeft (fst p + 1) (snd p + 1)) \<and>
          val (cell s' p) = 0 \<and> moves (cell s' p) = empty_moves"
    if "\<exists>p \<in> set Cells. val (cell s' p) = 0 \<and> moves (cell s' p) = empty_moves"
  proof -
    from that have "scan_no_moves s' Cells \<noteq> None"
      by (simp add: scan_no_moves_None)
    then obtain err where "scan_no_moves s' Cells = Some err"
      by blast
    with e scan_no_moves_Some [OF this] show ?thesis
      by auto
  qed
  moreover have "e = None"
    if "\<forall>p \<in> set Cells. \<not> (val (cell s' p) = 0 \<and> moves (cell s' p) = empty_moves)"
    using that e by (simp add: scan_no_moves_None)
  ultimately show ?thesis
    using s' by blast
qed

theorem C3_contradiction_scan_witness:
  "valid_move 0 0 9 blocked_grid \<and>
   val (cell (snd (PlayMove 0 0 9 blocked_grid)) (0, 1)) = 0 \<and>
   moves (cell (snd (PlayMove 0 0 9 blocked_grid)) (0, 1)) = empty_moves \<and>
   (\<exists>p \<in> set Cells. fst (PlayMove 0 0 9 blocked_grid) = Some (NoMovesLeft (fst p + 1) (snd p + 1))) \<and>
   valid_move 0 0 5 new_board \<and>
   fst (PlayMove 0 0 5 new_board) = None"
proof -
  let ?s = "snd (PlayMove 0 0 9 blocked_grid)"
  let ?t = "snd (PlayMove 0 0 5 new_board)"
  have v1: "valid_move 0 0 9 blocked_grid"
    by code_simp
  have c1: "val (cell ?s (0, 1)) = 0" "moves (cell ?s (0, 1)) = empty_moves" "(0, 1) \<in> set Cells"
    by code_simp+
  then have ex: "\<exists>p \<in> set Cells. val (cell ?s p) = 0 \<and> moves (cell ?s p) = empty_moves"
    by blast
  have v2: "valid_move 0 0 5 new_board"
    by code_simp
  have "scan_no_moves ?t Cells = None"
    by code_simp
  then have all: "\<forall>p \<in> set Cells. \<not> (val (cell ?t p) = 0 \<and> moves (cell ?t p) = empty_moves)"
    by (simp add: scan_no_moves_None)
  from C3_contradiction_scan [OF v1 surjective_pairing] ex
    C3_contradiction_scan [OF v2 surjective_pairing] all v1 v2 c1
  show ?thesis
    by blast
qed

subsection \<open>C7: group conflicts\<close>

lemma group_blocked:
  assumes "settled s" "q \<in> set Cells" "val (cell s q) = v" "v \<noteq> 0"
    and "set g \<subseteq> set (peers (fst q) (snd q))"
  shows "\<not> has (Cells_RemainingMoves s g) v"
  using assms unfolding has_RemainingMoves settled_def by blast

lemma validate_in_range:
  assumes "0 \<le> row" "row < 9" "0 \<le> col" "col < 9" "1 \<le> v" "v \<le> 9" "val (cell s (row, col)) = 0"
  shows "validate row col v s =
     (if \<not> has (Cells_RemainingMoves s (Row row)) v then Some RowAlreadyContains
      else if \<not> has (Cells_RemainingMoves s (Col col)) v then Some ColAlreadyContains
      else if \<not> has (Cells_RemainingMoves s (Square (row div 3) (col div 3))) v
        then Some SquareAlreadyContains
      else if \<not> has (moves (cell s (row, col))) v then Some NotAValidSpot
      else None)"
  using assms by (simp add: validate_def)

lemma PlayMove_no_conflict:
  assumes "validate row col v s = None \<or> validate row col v s = Some NotAValidSpot"
  shows "fst (PlayMove row col v s) \<notin>
           {Some RowAlreadyContains, Some ColAlreadyContains, Some SquareAlreadyContains}"
proof (cases "validate row col v s")
  case None
  then have "fst (PlayMove row col v s) = scan_no_moves (played row col v s) (Range 0 0 8 8)"
    by (simp add: PlayMove_eq)
  then show ?thesis
    using scan_no_moves_Some [of "played row col v s" "Range 0 0 8 8"]
    by (cases "scan_no_moves (played row col v s) (Range 0 0 8 8)") auto
next
  case (Some e)
  with assms show ?thesis
    by (simp add: PlayMove_eq)
qed

text \<open>
  C7. The group check of PlayMove comes third, after the bounds and after the test that
  the cell is free; so take coordinates and a value in range and a free cell. Then
  PlayMove fails with one of the three group-conflict errors exactly when the value is
  absent from the union of the remaining candidates of the row, of the column or of the
  square of the cell, and the board is unchanged then. On a board where the value of
  every assigned cell is gone from the candidates of its row, column and square
  (\<open>settled\<close>: NewSudoku builds such boards and PlayMove keeps them so), this happens
  whenever a cell of one of the three groups already holds the value; when that cell is
  in the row, the error is the row conflict. In particular, with 5 in cell (0,0),
  \<^verbatim>\<open>PlayMove(0, 1, 5)\<close> fails with the row conflict and changes nothing.
\<close>

theorem C7_group_conflict:
  assumes "0 \<le> row" "row < 9" "0 \<le> col" "col < 9" "1 \<le> v" "v \<le> 9"
    and "val (cell s (row, col)) = 0"
  shows
    "(fst (PlayMove row col v s) \<in>
        {Some RowAlreadyContains, Some ColAlreadyContains, Some SquareAlreadyContains}
      \<longleftrightarrow> Moves_Contains (Cells_RemainingMoves s (Row row)) v = Inr False \<or>
          Moves_Contains (Cells_RemainingMoves s (Col col)) v = Inr False \<or>
          Moves_Contains (Cells_RemainingMoves s (Square (row div 3) (col div 3))) v = Inr False) \<and>
     (fst (PlayMove row col v s) \<in>
        {Some RowAlreadyContains, Some ColAlreadyContains, Some SquareAlreadyContains}
      \<longrightarrow> snd (PlayMove row col v s) = s) \<and>
     (settled s \<and>
      (\<exists>q \<in> set (Row row @ Col col @ Square (row div 3) (col div 3)). val (cell s q) = v)
      \<longrightarrow> fst (PlayMove row col v s) \<in>
            {Some RowAlreadyContains, Some ColAlreadyContains, Some SquareAlreadyContains}) \<and>
     (settled s \<and> (\<exists>q \<in> set (Row row). val (cell s q) = v)
      \<longrightarrow> PlayMove row col v s = (Some RowAlreadyContains, s))"
proof -
  let ?r = "has (Cells_RemainingMoves s (Row row)) v"
  let ?c = "has (Cells_RemainingMoves s (Col col)) v"
  let ?q = "has (Cells_RemainingMoves s (Square (row div 3) (col div 3))) v"
  let ?conflicts = "{Some RowAlreadyContains, Some ColAlreadyContains, Some SquareAlreadyContains}"
  note val = validate_in_range [OF assms]
  have contains: "Moves_Contains m v = Inr False \<longleftrightarrow> \<not> has m v" for m
    using assms by (simp add: Contains_in)
  have conflict: "fst (PlayMove row col v s) \<in> ?conflicts \<and> snd (PlayMove row col v s) = s"
    if "\<not> ?r \<or> \<not> ?c \<or> \<not> ?q"
  proof -
    from that val obtain e where "validate row col v s = Some e"
      "e \<in> {RowAlreadyContains, ColAlreadyContains, SquareAlreadyContains}"
      by (auto split: if_splits)
    then show ?thesis
      by (auto simp add: PlayMove_eq)
  qed
  have none: "fst (PlayMove row col v s) \<notin> ?conflicts" if "?r \<and> ?c \<and> ?q"
  proof -
    from that val have "validate row col v s = None \<or> validate row col v s = Some NotAValidSpot"
      by simp
    then show ?thesis
      by (rule PlayMove_no_conflict)
  qed
  have row_blocked: "\<not> ?r" if "settled s" "q \<in> set (Row row)" "val (cell s q) = v" for q
  proof (rule group_blocked [OF that(1) _ that(3)])
    show "q \<in> set Cells"
      using that(2) assms by (simp add: set_Row set_Cells)
    show "v \<noteq> 0"
      using assms by simp
    show "set (Row row) \<subseteq> set (peers (fst q) (snd q))"
      using that(2) by (auto simp add: set_Row set_peers)
  qed
  have col_blocked: "\<not> ?c" if "settled s" "q \<in> set (Col col)" "val (cell s q) = v" for q
  proof (rule group_blocked [OF that(1) _ that(3)])
    show "q \<in> set Cells"
      using that(2) assms by (simp add: set_Col set_Cells)
    show "v \<noteq> 0"
      using assms by simp
    show "set (Col col) \<subseteq> set (peers (fst q) (snd q))"
      using that(2) by (auto simp add: set_Col set_peers)
  qed
  have square_blocked: "\<not> ?q"
    if "settled s" "q \<in> set (Square (row div 3) (col div 3))" "val (cell s q) = v" for q
  proof (rule group_blocked [OF that(1) _ that(3)])
    from that(2) have "fst q div 3 = row div 3" "snd q div 3 = col div 3"
      by (simp_all add: set_Square)
    with assms show "q \<in> set Cells"
      unfolding set_Cells by presburger
    show "v \<noteq> 0"
      using assms by simp
    show "set (Square (row div 3) (col div 3)) \<subseteq> set (peers (fst q) (snd q))"
      using that(2) by (auto simp add: set_Square set_peers)
  qed
  have first: "fst (PlayMove row col v s) \<in> ?conflicts \<longleftrightarrow> \<not> ?r \<or> \<not> ?c \<or> \<not> ?q"
    using conflict none by blast
  have third: "fst (PlayMove row col v s) \<in> ?conflicts"
    if "settled s" "\<exists>q \<in> set (Row row @ Col col @ Square (row div 3) (col div 3)). val (cell s q) = v"
  proof -
    from that(2) obtain q where q: "val (cell s q) = v"
      and "q \<in> set (Row row) \<or> q \<in> set (Col col) \<or> q \<in> set (Square (row div 3) (col div 3))"
      by auto
    then have "\<not> ?r \<or> \<not> ?c \<or> \<not> ?q"
      using row_blocked [OF that(1) _ q] col_blocked [OF that(1) _ q] square_blocked [OF that(1) _ q]
      by blast
    then show ?thesis
      using conflict by blast
  qed
  have fourth: "PlayMove row col v s = (Some RowAlreadyContains, s)"
    if "settled s" "\<exists>q \<in> set (Row row). val (cell s q) = v"
  proof -
    from that have "\<not> ?r"
      using row_blocked by blast
    with val have "validate row col v s = Some RowAlreadyContains"
      by simp
    then show ?thesis
      by (simp add: PlayMove_eq)
  qed
  show ?thesis
    using first conflict third fourth unfolding contains by blast
qed

text \<open>The board with the single clue 5 in cell (0,0).\<close>

definition five_clues :: "int arr9 arr9" where
  "five_clues = Arr9
     (Arr9 5 0 0 0 0 0 0 0 0)
     (fill9 0) (fill9 0) (fill9 0) (fill9 0) (fill9 0) (fill9 0) (fill9 0) (fill9 0)"

theorem C7_group_conflict_witness:
  "fst (NewSudoku five_clues) = None \<and>
   val (cell (snd (NewSudoku five_clues)) (0, 0)) = 5 \<and>
   val (cell (snd (NewSudoku five_clues)) (0, 1)) = 0 \<and>
   settled (snd (NewSudoku five_clues)) \<and>
   Moves_Contains (Cells_RemainingMoves (snd (NewSudoku five_clues)) (Row 0)) 5 = Inr False \<and>
   PlayMove 0 1 5 (snd (NewSudoku five_clues)) = (Some RowAlreadyContains, snd (NewSudoku five_clues))"
proof -
  let ?g = "snd (NewSudoku five_clues)"
  have built: "fst (NewSudoku five_clues) = None"
    by code_simp
  have holds: "val (cell ?g (0, 0)) = 5" and free: "val (cell ?g (0, 1)) = 0"
    by code_simp+
  have absent: "Moves_Contains (Cells_RemainingMoves ?g (Row 0)) 5 = Inr False"
    by code_simp
  have settled: "settled ?g"
    by (rule NewSudoku_settled)
  have "(0, 0) \<in> set (Row 0)"
    by (simp add: set_Row)
  with holds have peer: "\<exists>q \<in> set (Row 0). val (cell ?g q) = 5"
    by blast
  have "PlayMove 0 1 5 ?g = (Some RowAlreadyContains, ?g)"
    using C7_group_conflict [of 0 1 5 ?g] free settled peer by simp
  with built holds free settled absent show ?thesis
    by simp
qed

subsection \<open>C5: candidates never come back\<close>

text \<open>
  The operations a caller has on a grid: PlayMove, \<^verbatim>\<open>Cell.EliminateMove\<close> and \<^verbatim>\<open>Cell.Set\<close>
  through a cell reference, \<^verbatim>\<open>Cells.EliminateMove\<close> on a list of references, and Solve.
  \<open>perform\<close> gives the board an operation leaves, whatever it returns.
\<close>

datatype operation =
    Assign int int int
  | Eliminate CellRef int
  | EliminateAll "CellRef list" int
  | SetCell CellRef int
  | Sweep

fun perform :: "operation \<Rightarrow> Sudoku \<Rightarrow> Sudoku" where
  "perform (Assign row col v) s = snd (PlayMove row col v s)"
| "perform (Eliminate p v) s =
     (case Cell_EliminateMove (cell s p) v of
        Inl e \<Rightarrow> s
      | Inr (changed, c) \<Rightarrow> put_cell s p c)"
| "perform (EliminateAll c v) s = snd (Cells_EliminateMove s c v)"
| "perform (SetCell p v) s = put_cell s p (snd (Cell_Set (cell s p) v))"
| "perform Sweep s = snd (Solve s)"

definition run :: "operation list \<Rightarrow> Sudoku \<Rightarrow> Sudoku" where
  "run ops s = foldl (\<lambda>s op. perform op s) s ops"

lemma perform_evolves: "evolves s (perform op s)"
proof (cases op)
  case (Assign row col v)
  then show ?thesis
    by (simp add: PlayMove_evolves)
next
  case (Eliminate p v)
  show ?thesis
  proof (cases "1 \<le> v \<and> v \<le> 9")
    case True
    have "evolves s (put_cell s p (clear v (cell s p)))"
      by (rule put_cell_evolves) (simp_all add: has_clear_imp)
    with True Eliminate show ?thesis
      by (simp add: Cell_EliminateMove_in)
  next
    case False
    then have "v < 1 \<or> v > 9" by auto
    with Eliminate show ?thesis
      by (simp add: Cell_EliminateMove_out evolves_refl)
  qed
next
  case (EliminateAll c v)
  then show ?thesis
    by (simp add: Cells_EliminateMove_evolves)
next
  case (SetCell p v)
  have "evolves s (put_cell s p (snd (Cell_Set (cell s p) v)))"
    by (rule put_cell_evolves) (auto simp add: Cell_Set_def split: if_splits)
  with SetCell show ?thesis
    by simp
next
  case Sweep
  then show ?thesis
    by (simp add: Solve_evolves)
qed

lemma run_evolves: "evolves s (run ops s)"
proof (induction ops arbitrary: s)
  case Nil
  then show ?case
    by (simp add: run_def evolves_refl)
next
  case (Cons op ops)
  have "evolves s (perform op s)"
    by (rule perform_evolves)
  moreover have "evolves (perform op s) (run ops (perform op s))"
    by (rule Cons.IH)
  ultimately show ?case
    unfolding run_def by (simp add: evolves_trans)
qed

lemma run_append: "run (ops1 @ ops2) s = run ops2 (run ops1 s)"
  by (simp add: run_def)

lemma evolves_absent:
  assumes "evolves s s'" "Moves_Contains (moves (cell s p)) v = Inr False"
  shows "Moves_Contains (moves (cell s' p)) v = Inr False"
proof (cases "1 \<le> v \<and> v \<le> 9")
  case True
  from assms(1) have "has (moves (cell s' p)) v \<Longrightarrow> has (moves (cell s p)) v"
    unfolding evolves_def by blast
  with True assms(2) show ?thesis
    by (auto simp add: Contains_in)
next
  case False
  then have "v < 1 \<or> v > 9" by auto
  with assms(2) show ?thesis
    by (simp add: Contains_out)
qed

text \<open>
  C5. Candidate removal is monotonic. Take any sequence of operations on a grid
  (assignments, eliminations through a cell or a list of cells, \<^verbatim>\<open>Cell.Set\<close>, runs of
  Solve) and any point in it: a value that is absent from the candidate set of a cell
  at that point is absent from it after every further operation of the sequence.
\<close>

theorem C5_candidates_never_return:
  assumes "Moves_Contains (moves (cell (run before s) p)) v = Inr False"
  shows "Moves_Contains (moves (cell (run (before @ after) s) p)) v = Inr False"
proof -
  have "evolves (run before s) (run after (run before s))"
    by (rule run_evolves)
  then show ?thesis
    using assms unfolding run_append by (rule evolves_absent)
qed

theorem C5_candidates_never_return_witness:
  "Moves_Contains (moves (cell (run [Assign 0 0 5] new_board) (0, 1))) 5 = Inr False \<and>
   Moves_Contains (moves (cell (run ([Assign 0 0 5] @ [Assign 0 1 5, Eliminate (0, 1) 4, Sweep]) new_board) (0, 1))) 5
     = Inr False"
proof -
  have a: "Moves_Contains (moves (cell (run [Assign 0 0 5] new_board) (0, 1))) 5 = Inr False"
    by code_simp
  from C5_candidates_never_return [OF a] a show ?thesis
    by simp
qed

subsection \<open>C1: a stuck call\<close>

text \<open>
  A board built by NewSudoku with four free cells, (0,2), (0,8), (2,2) and (2,8), each
  with the candidates 1 and 3: the puzzle has two solutions.
\<close>

definition pair_clues :: "int arr9 arr9" where
  "pair_clues = Arr9
     (Arr9 2 6 0 9 8 5 7 4 0)
     (Arr9 7 9 8 4 1 3 5 2 6)
     (Arr9 4 5 0 6 2 7 9 8 0)
     (Arr9 5 1 7 8 3 2 6 9 4)
     (Arr9 9 2 6 5 4 1 3 7 8)
     (Arr9 8 3 4 7 6 9 1 5 2)
     (Arr9 6 8 5 1 9 4 2 3 7)
     (Arr9 1 7 2 3 5 8 4 6 9)
     (Arr9 3 4 9 2 7 6 8 1 5)"

definition pair_grid :: Sudoku where
  "pair_grid = Arr9
     (Arr9 (given_cell 2) (given_cell 6) (free_cell 5) (given_cell 9) (given_cell 8) (given_cell 5) (given_cell 7) (given_cell 4) (free_cell 5))
     (Arr9 (given_cell 7) (given_cell 9) (given_cell 8) (given_cell 4) (given_cell 1) (given_cell 3) (given_cell 5) (given_cell 2) (given_cell 6))
     (Arr9 (given_cell 4) (given_cell 5) (free_cell 5) (given_cell 6) (given_cell 2) (given_cell 7) (given_cell 9) (given_cell 8) (free_cell 5))
     (Arr9 (given_cell 5) (given_cell 1) (given_cell 7) (given_cell 8) (given_cell 3) (given_cell 2) (given_cell 6) (given_cell 9) (given_cell 4))
     (Arr9 (given_cell 9) (given_cell 2) (given_cell 6) (given_cell 5) (given_cell 4) (given_cell 1) (given_cell 3) (given_cell 7) (given_cell 8))
     (Arr9 (given_cell 8) (given_cell 3) (given_cell 4) (given_cell 7) (given_cell 6) (given_cell 9) (given_cell 1) (given_cell 5) (given_cell 2))
     (Arr9 (given_cell 6) (given_cell 8) (given_cell 5) (given_cell 1) (given_cell 9) (given_cell 4) (given_cell 2) (given_cell 3) (given_cell 7))
     (Arr9 (given_cell 1) (given_cell 7) (given_cell 2) (given_cell 3) (given_cell 5) (given_cell 8) (given_cell 4) (given_cell 6) (given_cell 9))
     (Arr9 (given_cell 3) (given_cell 4) (given_cell 9) (given_cell 2) (given_cell 7) (given_cell 6) (given_cell 8) (given_cell 1) (given_cell 5))"

lemma pair_grid_built: "NewSudoku pair_clues = (None, pair_grid)"
  by code_simp

lemma pair_grid_stuck: "deduce (0, pair_grid) = (None, (0, pair_grid))"
  by code_simp

lemma pair_grid_subsets: "subset_pass (0, pair_grid) = (None, (0, pair_grid))"
  by code_simp

lemma pair_grid_unset: "Cells_UnsetOnly pair_grid Cells = [(0, 2), (0, 8), (2, 2), (2, 8)]"
  by code_simp

text \<open>
  C1 as stated fails. The guessing loop of Solve is commented out in the source (lines
  405-421), so a call that is stuck never selects a cell, clones the grid or tries a
  candidate. On \<open>pair_grid\<close> the loops change nothing and four cells are unset; assigning
  the first candidate of the first unset cell on a clone succeeds and Solve solves that
  clone; yet Solve on the grid itself fails with ``No solution found''.
\<close>

theorem C1_no_search_counterexample:
  "NewSudoku pair_clues = (None, pair_grid) \<and>
   deduce (0, pair_grid) = (None, (0, pair_grid)) \<and>
   Cells_UnsetOnly pair_grid Cells = [(0, 2), (0, 8), (2, 2), (2, 8)] \<and>
   Cell_Moves (cell pair_grid (0, 2)) = Inr [1, 3] \<and>
   fst (PlayMove 0 2 1 (Clone pair_grid)) = None \<and>
   fst (Solve (snd (PlayMove 0 2 1 (Clone pair_grid)))) = None \<and>
   Solve pair_grid = (Some NoSolutionFound, pair_grid)"
proof -
  have "Solve_call pair_grid = Return (Some NoSolutionFound, pair_grid)"
    by (simp add: Solve_call_def pair_grid_stuck pair_grid_unset pair_grid_subsets)
  then have "Solve pair_grid = (Some NoSolutionFound, pair_grid)"
    by (simp add: Solve.simps [of pair_grid])
  moreover have "Cell_Moves (cell pair_grid (0, 2)) = Inr [1, 3]"
    by code_simp
  moreover have "fst (PlayMove 0 2 1 (Clone pair_grid)) = None"
    by code_simp
  moreover have "fst (Solve (snd (PlayMove 0 2 1 (Clone pair_grid)))) = None"
    by code_simp
  ultimately show ?thesis
    using pair_grid_built pair_grid_stuck pair_grid_unset by simp
qed

text \<open>
  C1, amended. When the loops of lines 273-392 make zero changes and the grid still has
  unset cells, Solve runs the subset-exclusion pass on the grid, which never fails. If
  the pass made a change, Solve runs again on the grid it left. Otherwise the pass left
  the grid as it was and Solve fails with NoSolution at once, on that grid: no cell is
  selected, nothing is cloned and no candidate is tried.
\<close>

theorem C1_stuck_call:
  assumes "deduce (0, s) = (None, (0, s1))" and "Cells_UnsetOnly s1 Cells \<noteq> []"
    and "subset_pass (0, s1) = (e2, (n2, s2))"
  shows "e2 = None \<and>
         (0 < n2 \<longrightarrow> Solve s = Solve s2) \<and>
         (n2 = 0 \<longrightarrow> s2 = s1 \<and> Solve s = (Some NoSolutionFound, s1))"
proof -
  from assms(3) have none: "e2 = None"
    using subset_pass_ok [of "(0, s1)"] by simp
  have "Solve s = Solve s2" if "0 < n2"
  proof -
    from that assms none have "Solve_call s = Again s2"
      by (simp add: Solve_call_def)
    then show ?thesis
      by (simp add: Solve.simps [of s])
  qed
  moreover have "s2 = s1 \<and> Solve s = (Some NoSolutionFound, s1)" if "n2 = 0"
  proof -
    from that assms(3) have same: "s2 = s1"
      using subset_pass_idle [of 0 s1 e2 s2] by simp
    from that assms none have "Solve_call s = Return (Some NoSolutionFound, s2)"
      by (simp add: Solve_call_def)
    with same show ?thesis
      by (simp add: Solve.simps [of s])
  qed
  ultimately show ?thesis
    using none by blast
qed

theorem C1_stuck_call_witness:
  "deduce (0, pair_grid) = (None, (0, pair_grid)) \<and>
   Cells_UnsetOnly pair_grid Cells \<noteq> [] \<and>
   subset_pass (0, pair_grid) = (None, (0, pair_grid)) \<and>
   Solve pair_grid = (Some NoSolutionFound, pair_grid)"
proof -
  have unset: "Cells_UnsetOnly pair_grid Cells \<noteq> []"
    by (simp add: pair_grid_unset)
  from C1_stuck_call [OF pair_grid_stuck unset pair_grid_subsets]
  show ?thesis
    using pair_grid_stuck unset pair_grid_subsets by simp
qed

subsection \<open>C2: what one call of Solve applies\<close>




definition naked_pair_deduced :: Sudoku where
  "naked_pair_deduced = Arr9
     (Arr9 (given_cell 1) (given_cell 5) (given_cell 6) (given_cell 2) (given_cell 7) (given_cell 8) (free_cell 12) (free_cell 12) (given_cell 9))
     (Arr9 (given_cell 8) (given_cell 4) (given_cell 3) (given_cell 5) (given_cell 9) (given_cell 1) (given_cell 2) (given_cell 6) (given_cell 7))
     (Arr9 (given_cell 2) (given_cell 7) (given_cell 9) (given_cell 6) (given_cell 3) (given_cell 4) (given_cell 5) (given_cell 8) (given_cell 1))
     (Arr9 (given_cell 3) (given_cell 1) (given_cell 4) (given_cell 8) (given_cell 6) (given_cell 7) (given_cell 9) (given_cell 2) (given_cell 5))
     (Arr9 (given_cell 9) (given_cell 2) (given_cell 7) (given_cell 3) (given_cell 4) (given_cell 5) (given_cell 6) (given_cell 1) (given_cell 8))
     (Arr9 (given_cell 5) (given_cell 6) (given_cell 8) (given_cell 9) (given_cell 1) (given_cell 2) (free_cell 12) (given_cell 7) (free_cell 12))
     (Arr9 (given_cell 4) (given_cell 9) (given_cell 2) (free_cell 65) (given_cell 8) (given_cell 3) (free_cell 65) (given_cell 5) (given_cell 6))
     (Arr9 (given_cell 7) (given_cell 3) (given_cell 1) (given_cell 4) (given_cell 5) (given_cell 6) (given_cell 8) (given_cell 9) (given_cell 2))
     (Arr9 (given_cell 6) (given_cell 8) (given_cell 5) (free_cell 65) (given_cell 2) (given_cell 9) (free_cell 77) (free_cell 12) (free_cell 12))"

definition naked_pair_swept :: Sudoku where
  "naked_pair_swept = Arr9
     (Arr9 (given_cell 1) (given_cell 5) (given_cell 6) (given_cell 2) (given_cell 7) (given_cell 8) (free_cell 12) (free_cell 12) (given_cell 9))
     (Arr9 (given_cell 8) (given_cell 4) (given_cell 3) (given_cell 5) (given_cell 9) (given_cell 1) (given_cell 2) (given_cell 6) (given_cell 7))
     (Arr9 (given_cell 2) (given_cell 7) (given_cell 9) (given_cell 6) (given_cell 3) (given_cell 4) (given_cell 5) (given_cell 8) (given_cell 1))
     (Arr9 (given_cell 3) (given_cell 1) (given_cell 4) (given_cell 8) (given_cell 6) (given_cell 7) (given_cell 9) (given_cell 2) (given_cell 5))
     (Arr9 (given_cell 9) (given_cell 2) (given_cell 7) (given_cell 3) (given_cell 4) (given_cell 5) (given_cell 6) (given_cell 1) (given_cell 8))
     (Arr9 (given_cell 5) (given_cell 6) (given_cell 8) (given_cell 9) (given_cell 1) (given_cell 2) (free_cell 12) (given_cell 7) (free_cell 12))
     (Arr9 (given_cell 4) (given_cell 9) (given_cell 2) (free_cell 65) (given_cell 8) (given_cell 3) (free_cell 65) (given_cell 5) (given_cell 6))
     (Arr9 (given_cell 7) (given_cell 3) (given_cell 1) (given_cell 4) (given_cell 5) (given_cell 6) (given_cell 8) (given_cell 9) (given_cell 2))
     (Arr9 (given_cell 6) (given_cell 8) (given_cell 5) (free_cell 65) (given_cell 2) (given_cell 9) (free_cell 65) (free_cell 12) (free_cell 12))"







subsection \<open>C4: subset exclusion\<close>

text \<open>
  The pass of lines 424-444 is \<open>subset_pass\<close>: for every group of \<open>Groups\<close>,
  \<open>subset_group\<close> takes the unset cells of the group and runs \<open>subset_step\<close> on every
  member of their power set, in the order of \<^verbatim>\<open>Cells.PowerSet\<close>. The pass works on one
  board, so a subset is judged on the board as the subsets before it have left it;
  assigned values never change during the pass and candidate sets only shrink
  (\<open>shrinks\<close>), so the unset cells of a group are the same throughout.

  C4. Let the pass run from the board \<open>s\<close> and leave the board \<open>s'\<close>. It does not fail.

  \<^item> Only qualifying subsets trigger: \<open>s'\<close> is reached from \<open>s\<close> by steps of \<open>trigger\<close>,
    each of which takes a group \<open>g\<close> of \<open>Groups\<close>, a sublist \<open>sub\<close> of its unset cells with
    \<open>2 \<le> |sub| \<le> (number of unset cells of g) - 1\<close> whose candidates are together exactly
    \<open>|sub|\<close> values \<open>vs\<close>, and removes \<open>vs\<close> from the candidates of the unset cells of \<open>g\<close>
    outside \<open>sub\<close>; every other cell of the grid, those of \<open>sub\<close> among them, keeps its
    value and its candidates (\<open>excluded\<close>).
  \<^item> Every qualifying subset triggers: for every group \<open>g\<close> of \<open>Groups\<close> and every
    sublist \<open>sub\<close> of its unset cells the pass reaches a board \<open>t\<close> on which it runs the
    step of \<open>sub\<close>, leaving \<open>t'\<close>. If \<open>sub\<close> qualifies on \<open>t\<close> with the values \<open>vs\<close>, then
    \<open>t'\<close> is \<open>t\<close> with exactly this exclusion done, and at the end of the pass every
    value of \<open>vs\<close> is absent from every unset cell of \<open>g\<close> outside \<open>sub\<close>. If \<open>sub\<close> does
    not qualify on \<open>t\<close>, its step changes nothing.
  \<^item> The step of a list against itself changes nothing, whatever the candidates are:
    the subset of all the unset cells of a group never triggers.
  \<^item> The unset cells of a group are pairwise different, so that the lengths above are
    cardinalities.
\<close>

theorem C4_subset_pass:
  assumes "subset_pass (n, s) = (e, (n', s'))"
  shows "e = None \<and>
         trigger\<^sup>*\<^sup>* s s' \<and>
         (\<forall>g \<in> set Groups. \<forall>sub \<in> set (subseqs (Cells_UnsetOnly s g)).
            \<exists>t t'. shrinks s t \<and> shrinks t t' \<and> shrinks t' s' \<and>
              (\<forall>vs. qualifies t (Cells_UnsetOnly s g) sub vs \<longrightarrow>
                 excluded t (Cells_UnsetOnly s g) sub vs t' \<and>
                 (\<forall>v \<in> set vs. \<forall>p \<in> set (Cells_UnsetOnly s g). p \<notin> set sub \<longrightarrow>
                    Moves_Contains (moves (cell s' p)) v = Inr False)) \<and>
              ((\<forall>vs. \<not> qualifies t (Cells_UnsetOnly s g) sub vs) \<longrightarrow> t' = t)) \<and>
         (\<forall>grp st. subset_step grp grp st = (None, st)) \<and>
         (\<forall>g \<in> set Groups. distinct (Cells_UnsetOnly s g))"
proof -
  from assms subset_pass_ok [of "(n, s)"] have none: "e = None"
    by simp
  from assms subset_pass_triggers [of s n] have steps: "trigger\<^sup>*\<^sup>* s s'"
    by simp
  have whole: "subset_step grp grp st = (None, st)" for grp st
    by (rule subset_step_skips) simp
  have each: "\<exists>t t'. shrinks s t \<and> shrinks t t' \<and> shrinks t' s' \<and>
              (\<forall>vs. qualifies t (Cells_UnsetOnly s g) sub vs \<longrightarrow>
                 excluded t (Cells_UnsetOnly s g) sub vs t' \<and>
                 (\<forall>v \<in> set vs. \<forall>p \<in> set (Cells_UnsetOnly s g). p \<notin> set sub \<longrightarrow>
                    Moves_Contains (moves (cell s' p)) v = Inr False)) \<and>
              ((\<forall>vs. \<not> qualifies t (Cells_UnsetOnly s g) sub vs) \<longrightarrow> t' = t)"
    if g: "g \<in> set Groups" and sub: "sub \<in> set (subseqs (Cells_UnsetOnly s g))" for g sub
  proof -
    let ?grp = "Cells_UnsetOnly s g"
    from subset_pass_visits [OF g sub, of n] assms
    obtain st where st: "shrinks s (snd st)"
      and rest: "shrinks (snd (snd (subset_step ?grp sub st))) s'"
      by auto
    let ?t = "snd st"
    let ?t' = "snd (snd (subset_step ?grp sub st))"
    have grid: "set ?grp \<subseteq> set Cells"
      using UnsetOnly_subset [of s g] Groups_in_grid [OF g] by blast
    have step: "shrinks ?t ?t'"
      by (rule subset_step_shrinks)
    have fires: "excluded ?t ?grp sub vs ?t' \<and>
                 (\<forall>v \<in> set vs. \<forall>p \<in> set ?grp. p \<notin> set sub \<longrightarrow>
                    Moves_Contains (moves (cell s' p)) v = Inr False)"
      if q: "qualifies ?t ?grp sub vs" for vs
    proof -
      from grid q have ex: "excluded ?t ?grp sub vs ?t'"
        by (rule subset_step_excluded)
      from q have vs: "Moves_Slice (Cells_RemainingMoves ?t sub) = Inr vs"
        by (simp add: qualifies_def)
      have "Moves_Contains (moves (cell s' p)) v = Inr False"
        if v: "v \<in> set vs" and p: "p \<in> set ?grp" "p \<notin> set sub" for v p
      proof -
        from v have range: "1 \<le> v" "v \<le> 9"
          using Slice_values(2) [OF vs] by blast+
        from p grid have "p \<in> set Cells"
          by blast
        with ex p v have "Moves_Contains (moves (cell ?t' p)) v \<noteq> Inr True"
          unfolding excluded_def by auto
        with range have "\<not> has (moves (cell ?t' p)) v"
          by (simp add: Contains_in)
        with rest have "\<not> has (moves (cell s' p)) v"
          unfolding shrinks_def by blast
        with range show ?thesis
          by (simp add: Contains_in)
      qed
      with ex show ?thesis
        by blast
    qed
    have idle: "?t' = ?t" if "\<forall>vs. \<not> qualifies ?t ?grp sub vs"
      using subset_step_unqualified [OF sub, of st] that by simp
    from st step rest fires idle show ?thesis
      by blast
  qed
  from none steps each whole show ?thesis
    by (simp add: UnsetOnly_distinct)
qed

text \<open>
  A board built by NewSudoku whose row 0 has three free cells with the candidates
  {1,2}, {1,2} and {1,3}: the row holds 4..9 in columns 3..8, column 0 and column 1
  hold a 3 and column 2 holds a 2.
\<close>

definition triple_clues :: "int arr9 arr9" where
  "triple_clues = Arr9
     (Arr9 0 0 0 4 5 6 7 8 9)
     (fill9 0)
     (fill9 0)
     (Arr9 3 0 2 0 0 0 0 0 0)
     (fill9 0)
     (fill9 0)
     (Arr9 0 3 0 0 0 0 0 0 0)
     (fill9 0)
     (fill9 0)"

definition triple_grid :: Sudoku where
  "triple_grid = Arr9
     (Arr9 (free_cell 3) (free_cell 3) (free_cell 5) (given_cell 4) (given_cell 5) (given_cell 6) (given_cell 7) (given_cell 8) (given_cell 9))
     (Arr9 (free_cell 507) (free_cell 507) (free_cell 509) (free_cell 455) (free_cell 455) (free_cell 455) (free_cell 63) (free_cell 63) (free_cell 63))
     (Arr9 (free_cell 507) (free_cell 507) (free_cell 509) (free_cell 455) (free_cell 455) (free_cell 455) (free_cell 63) (free_cell 63) (free_cell 63))
     (Arr9 (given_cell 3) (free_cell 505) (given_cell 2) (free_cell 497) (free_cell 489) (free_cell 473) (free_cell 441) (free_cell 377) (free_cell 249))
     (Arr9 (free_cell 505) (free_cell 505) (free_cell 505) (free_cell 503) (free_cell 495) (free_cell 479) (free_cell 447) (free_cell 383) (free_cell 255))
     (Arr9 (free_cell 505) (free_cell 505) (free_cell 505) (free_cell 503) (free_cell 495) (free_cell 479) (free_cell 447) (free_cell 383) (free_cell 255))
     (Arr9 (free_cell 507) (given_cell 3) (free_cell 505) (free_cell 499) (free_cell 491) (free_cell 475) (free_cell 443) (free_cell 379) (free_cell 251))
     (Arr9 (free_cell 507) (free_cell 507) (free_cell 505) (free_cell 503) (free_cell 495) (free_cell 479) (free_cell 447) (free_cell 383) (free_cell 255))
     (Arr9 (free_cell 507) (free_cell 507) (free_cell 505) (free_cell 503) (free_cell 495) (free_cell 479) (free_cell 447) (free_cell 383) (free_cell 255))"

text \<open>
  On the board \<open>naked_pair_deduced\<close> row 8 has the four unset cells (8,3), (8,6), (8,7)
  and (8,8) with the candidates {1,7}, {1,3,4,7}, {3,4} and {3,4}. The pass leaves
  \<open>naked_pair_swept\<close>: the pair (8,7), (8,8) has taken 3 and 4 from (8,6), and keeps its
  own candidates. On \<open>triple_grid\<close> the three unset cells of row 0 have the candidates
  {1,2}, {1,2} and {1,3}, three values in all, and their step changes nothing; the
  step of the first two, a pair with the two values 1 and 2, takes 1 from the third.
\<close>

theorem C4_subset_pass_witness:
  "subset_pass (2, naked_pair_deduced) = (None, (4, naked_pair_swept)) \<and>
   trigger\<^sup>*\<^sup>* naked_pair_deduced naked_pair_swept \<and>
   Row 8 \<in> set Groups \<and>
   Cells_UnsetOnly naked_pair_deduced (Row 8) = [(8, 3), (8, 6), (8, 7), (8, 8)] \<and>
   Cell_Moves (cell naked_pair_deduced (8, 3)) = Inr [1, 7] \<and>
   Cell_Moves (cell naked_pair_deduced (8, 6)) = Inr [1, 3, 4, 7] \<and>
   Cell_Moves (cell naked_pair_deduced (8, 7)) = Inr [3, 4] \<and>
   Cell_Moves (cell naked_pair_deduced (8, 8)) = Inr [3, 4] \<and>
   (\<exists>t t'. shrinks naked_pair_deduced t \<and> shrinks t' naked_pair_swept \<and>
      qualifies t [(8, 3), (8, 6), (8, 7), (8, 8)] [(8, 7), (8, 8)] [3, 4] \<and>
      excluded t [(8, 3), (8, 6), (8, 7), (8, 8)] [(8, 7), (8, 8)] [3, 4] t') \<and>
   Moves_Contains (moves (cell naked_pair_swept (8, 3))) 3 = Inr False \<and>
   Moves_Contains (moves (cell naked_pair_swept (8, 3))) 4 = Inr False \<and>
   Moves_Contains (moves (cell naked_pair_swept (8, 6))) 3 = Inr False \<and>
   Moves_Contains (moves (cell naked_pair_swept (8, 6))) 4 = Inr False \<and>
   Cell_Moves (cell naked_pair_swept (8, 6)) = Inr [1, 7] \<and>
   Cell_Moves (cell naked_pair_swept (8, 7)) = Inr [3, 4] \<and>
   Cell_Moves (cell naked_pair_swept (8, 8)) = Inr [3, 4] \<and>
   NewSudoku triple_clues = (None, triple_grid) \<and>
   Cells_UnsetOnly triple_grid (Row 0) = [(0, 0), (0, 1), (0, 2)] \<and>
   Cell_Moves (cell triple_grid (0, 0)) = Inr [1, 2] \<and>
   Cell_Moves (cell triple_grid (0, 1)) = Inr [1, 2] \<and>
   Cell_Moves (cell triple_grid (0, 2)) = Inr [1, 3] \<and>
   Moves_Slice (Cells_RemainingMoves triple_grid [(0, 0), (0, 1), (0, 2)]) = Inr [1, 2, 3] \<and>
   subset_step [(0, 0), (0, 1), (0, 2)] [(0, 0), (0, 1), (0, 2)] (0, triple_grid) = (None, (0, triple_grid)) \<and>
   Cell_Moves (cell (snd (snd (subset_step [(0, 0), (0, 1), (0, 2)] [(0, 0), (0, 1)] (0, triple_grid)))) (0, 2))
     = Inr [3]"
proof -
  let ?grp = "[(8, 3), (8, 6), (8, 7), (8, 8)] :: CellRef list"
  let ?pair = "[(8, 7), (8, 8)] :: CellRef list"
  have pass: "subset_pass (2, naked_pair_deduced) = (None, (4, naked_pair_swept))"
    by code_simp
  have row: "Row 8 \<in> set Groups"
    by code_simp
  have unset: "Cells_UnsetOnly naked_pair_deduced (Row 8) = ?grp"
    by code_simp
  have before: "Cell_Moves (cell naked_pair_deduced (8, 3)) = Inr [1, 7]"
    "Cell_Moves (cell naked_pair_deduced (8, 6)) = Inr [1, 3, 4, 7]"
    "Cell_Moves (cell naked_pair_deduced (8, 7)) = Inr [3, 4]"
    "Cell_Moves (cell naked_pair_deduced (8, 8)) = Inr [3, 4]"
    by code_simp+
  have after: "Cell_Moves (cell naked_pair_swept (8, 6)) = Inr [1, 7]"
    "Cell_Moves (cell naked_pair_swept (8, 7)) = Inr [3, 4]"
    "Cell_Moves (cell naked_pair_swept (8, 8)) = Inr [3, 4]"
    by code_simp+
  have sub: "?pair \<in> set (subseqs (Cells_UnsetOnly naked_pair_deduced (Row 8)))"
    unfolding unset by simp
  have same: "\<forall>p \<in> set ?pair. cell naked_pair_swept p = cell naked_pair_deduced p"
    by code_simp
  have "Moves_Slice (Cells_RemainingMoves naked_pair_deduced ?pair) = Inr [3, 4]"
    by code_simp
  then have q0: "qualifies naked_pair_deduced ?grp ?pair [3, 4]"
    by (simp add: qualifies_def)
  note all = C4_subset_pass [OF pass]
  from all have steps: "trigger\<^sup>*\<^sup>* naked_pair_deduced naked_pair_swept"
    by (rule conjunct1 [OF conjunct2])
  from all have "\<forall>grp st. subset_step grp grp st = (None, st)"
    by (rule conjunct1 [OF conjunct2 [OF conjunct2 [OF conjunct2]]])
  then have whole: "subset_step grp grp st = (None, st)" for grp st
    by blast
  from all have "\<forall>g \<in> set Groups. \<forall>sub \<in> set (subseqs (Cells_UnsetOnly naked_pair_deduced g)).
           \<exists>t t'. shrinks naked_pair_deduced t \<and> shrinks t t' \<and> shrinks t' naked_pair_swept \<and>
             (\<forall>vs. qualifies t (Cells_UnsetOnly naked_pair_deduced g) sub vs \<longrightarrow>
                excluded t (Cells_UnsetOnly naked_pair_deduced g) sub vs t' \<and>
                (\<forall>v \<in> set vs. \<forall>p \<in> set (Cells_UnsetOnly naked_pair_deduced g). p \<notin> set sub \<longrightarrow>
                   Moves_Contains (moves (cell naked_pair_swept p)) v = Inr False)) \<and>
             ((\<forall>vs. \<not> qualifies t (Cells_UnsetOnly naked_pair_deduced g) sub vs) \<longrightarrow> t' = t)"
    by (rule conjunct1 [OF conjunct2 [OF conjunct2]])
  from bspec [OF bspec [OF this row] sub]
  have "\<exists>t t'. shrinks naked_pair_deduced t \<and> shrinks t t' \<and> shrinks t' naked_pair_swept \<and>
           (\<forall>vs. qualifies t ?grp ?pair vs \<longrightarrow>
              excluded t ?grp ?pair vs t' \<and>
              (\<forall>v \<in> set vs. \<forall>p \<in> set ?grp. p \<notin> set ?pair \<longrightarrow>
                 Moves_Contains (moves (cell naked_pair_swept p)) v = Inr False)) \<and>
           ((\<forall>vs. \<not> qualifies t ?grp ?pair vs) \<longrightarrow> t' = t)"
    unfolding unset .
  then obtain t t' where t: "shrinks naked_pair_deduced t" "shrinks t t'" "shrinks t' naked_pair_swept"
    and fires: "qualifies t ?grp ?pair [3, 4] \<longrightarrow>
              excluded t ?grp ?pair [3, 4] t' \<and>
              (\<forall>v \<in> set [3, 4]. \<forall>p \<in> set ?grp. p \<notin> set ?pair \<longrightarrow>
                 Moves_Contains (moves (cell naked_pair_swept p)) v = Inr False)"
    by blast
  from t(2,3) have "shrinks t naked_pair_swept"
    by (rule shrinks_trans)
  with t(1) have q: "qualifies t ?grp ?pair [3, 4]"
    using same q0 by (rule qualifies_between)
  with fires have ex: "excluded t ?grp ?pair [3, 4] t'"
    and gone: "\<forall>v \<in> set [3, 4]. \<forall>p \<in> set ?grp. p \<notin> set ?pair \<longrightarrow>
                 Moves_Contains (moves (cell naked_pair_swept p)) v = Inr False"
    by blast+
  from gone have absent: "Moves_Contains (moves (cell naked_pair_swept (8, 3))) 3 = Inr False"
    "Moves_Contains (moves (cell naked_pair_swept (8, 3))) 4 = Inr False"
    "Moves_Contains (moves (cell naked_pair_swept (8, 6))) 3 = Inr False"
    "Moves_Contains (moves (cell naked_pair_swept (8, 6))) 4 = Inr False"
    by simp_all
  from t(1,3) q ex have between: "\<exists>t t'. shrinks naked_pair_deduced t \<and> shrinks t' naked_pair_swept \<and>
      qualifies t ?grp ?pair [3, 4] \<and> excluded t ?grp ?pair [3, 4] t'"
    by blast
  have built: "NewSudoku triple_clues = (None, triple_grid)"
    by code_simp
  have unset3: "Cells_UnsetOnly triple_grid (Row 0) = [(0, 0), (0, 1), (0, 2)]"
    by code_simp
  have cands: "Cell_Moves (cell triple_grid (0, 0)) = Inr [1, 2]"
    "Cell_Moves (cell triple_grid (0, 1)) = Inr [1, 2]"
    "Cell_Moves (cell triple_grid (0, 2)) = Inr [1, 3]"
    by code_simp+
  have u3: "Moves_Slice (Cells_RemainingMoves triple_grid [(0, 0), (0, 1), (0, 2)]) = Inr [1, 2, 3]"
    by code_simp
  have pair: "Cell_Moves (cell (snd (snd (subset_step [(0, 0), (0, 1), (0, 2)] [(0, 0), (0, 1)] (0, triple_grid)))) (0, 2))
     = Inr [3]"
    by code_simp
  from pass steps row unset before between absent after built unset3 cands u3 pair
    whole [of "[(0, 0), (0, 1), (0, 2)]" "(0, triple_grid)"]
  show ?thesis
    by (simp only: simp_thms)
qed

subsection \<open>C6: termination\<close>







subsection \<open>C8: a clone shares nothing with its original\<close>

text \<open>
  Grids are handled through pointers, \<^verbatim>\<open>*Sudoku\<close>, and their cells through pointers into
  the grid's array. A store holds the grids that have been allocated, a pointer is the
  position of its grid in the store, and a method called through a pointer replaces
  the grid at that position. \<^verbatim>\<open>type Sudoku struct { board [9][9]Cell }\<close> holds its 81
  cells in place and a cell holds integers only, so that a grid in the store is the
  value of all its cells.

  \<^verbatim>\<open>return &Sudoku{board: s.board}\<close> allocates a grid and copies the array into it.
\<close>

type_synonym addr = nat

type_synonym store = "Sudoku list"


text \<open>
  An operation of \<open>operation\<close> called on the grid at \<open>a\<close>, or on cells of that grid: on
  \<^verbatim>\<open>s.Cell(row, col)\<close>, which is \<^verbatim>\<open>&s.board[row][col]\<close>, or on a list of them.
\<close>

definition perform_at :: "addr \<Rightarrow> operation \<Rightarrow> store \<Rightarrow> store" where
  "perform_at a op h = (if a < length h then h[a := perform op (h ! a)] else h)"



lemma length_perform_at [simp]: "length (perform_at a op h) = length h"
  by (simp add: perform_at_def)




end
